theory Spec2Isabelle
  imports Complex_Main "HOL-Library.Log_Nat"
begin

section \<open>The multipart upload engine of the MinIO upload command\<close>

text \<open>
  This theory embeds \<^verbatim>\<open>handleSubmit\<close> of the upload command (from \<^verbatim>\<open>fs.statSync\<close>
  on) and the closures it declares: the part planning loop, \<^verbatim>\<open>updateTotalProgress\<close>,
  \<^verbatim>\<open>uploadPart\<close>, \<^verbatim>\<open>uploadPartWithRetry\<close>, \<^verbatim>\<open>worker\<close>, \<^verbatim>\<open>runUploadWorkers\<close>, the
  failure loop and \<^verbatim>\<open>cancelUpload\<close>.

  JavaScript runs the closures on one thread: a callback of the event loop (a response, a
  timer, a resolved store call, the cancel action) runs with everything it wakes up to
  the next \<^verbatim>\<open>await\<close> of each closure. One such callback is one \<open>event\<close> here, and
  \<open>step\<close> is the state after it. The interleavings of the workers are the lists of
  events.

  Numbers are JavaScript doubles in the source. Byte counts, part numbers and counters
  are integers below \<open>2 ^ 53\<close>, on which the doubles are exact, and are \<open>int\<close> here;
  a preference that \<^verbatim>\<open>parseInt\<close> cannot read is \<^verbatim>\<open>NaN\<close>, the value \<open>None\<close> of
  \<open>js_num\<close>. \<^verbatim>\<open>Math.ceil(fileSize / partSize)\<close> is the ceiling of the exact quotient (for
  integers below \<open>2 ^ 53\<close> the rounded quotient has the same ceiling). The percentage
  \<^verbatim>\<open>Math.round((totalUploaded / fileSize) * 100)\<close> is not exact in doubles: the quotient
  and the product are each rounded to the nearest double, \<open>fl64\<close>.
\<close>

subsection \<open>Numbers\<close>

type_synonym js_num = "int option"

definition js_max :: "int \<Rightarrow> js_num \<Rightarrow> js_num" where
  \<comment> \<open>\<^verbatim>\<open>Math.max(a, x)\<close>: \<^verbatim>\<open>NaN\<close> when \<open>x\<close> is.\<close>
  "js_max a x = map_option (max a) x"

definition js_min :: "js_num \<Rightarrow> int \<Rightarrow> js_num" where
  \<comment> \<open>\<^verbatim>\<open>Math.min(x, b)\<close>.\<close>
  "js_min x b = map_option (\<lambda>a. min a b) x"

definition js_gt0 :: "js_num \<Rightarrow> bool" where
  \<comment> \<open>\<^verbatim>\<open>x > 0\<close>: false for \<^verbatim>\<open>NaN\<close>.\<close>
  "js_gt0 x = (case x of None \<Rightarrow> False | Some a \<Rightarrow> 0 < a)"

definition js_lt :: "int \<Rightarrow> js_num \<Rightarrow> bool" where
  \<comment> \<open>\<^verbatim>\<open>a < x\<close>: false for \<^verbatim>\<open>NaN\<close>.\<close>
  "js_lt a x = (case x of None \<Rightarrow> False | Some b \<Rightarrow> a < b)"

definition js_pred :: "js_num \<Rightarrow> js_num" where
  \<comment> \<open>\<^verbatim>\<open>x - 1\<close>.\<close>
  "js_pred x = map_option (\<lambda>a. a - 1) x"

definition js_round :: "rat \<Rightarrow> int" where
  \<comment> \<open>\<^verbatim>\<open>Math.round\<close>: the nearest integer, a half rounded up.\<close>
  "js_round x = \<lfloor>x + 1 / 2\<rfloor>"

definition binade :: "rat \<Rightarrow> int" where
  \<comment> \<open>\<open>\<lfloor>log\<^sub>2 x\<rfloor>\<close> for \<open>x > 0\<close>, from the bit lengths of numerator and denominator\<close>
  "binade x =
     (let k = bitlen (fst (quotient_of x)) - bitlen (snd (quotient_of x))
      in if x < 2 powi k then k - 1 else k)"

definition round_even :: "rat \<Rightarrow> int" where
  \<comment> \<open>the nearest integer, a half rounded to the even neighbour\<close>
  "round_even y =
     (let n = \<lfloor>y\<rfloor>; d = y - of_int n
      in if d < 1 / 2 then n else if 1 / 2 < d then n + 1 else if even n then n else n + 1)"

definition fl64 :: "rat \<Rightarrow> rat" where
  \<comment> \<open>the double nearest to \<open>x\<close> (IEEE 754 binary64, round to nearest, ties to even):
     a significand of 53 bits. The exponent is not bounded here: the numbers rounded
     below are 0 or lie between \<open>1 / fileSize\<close> and 101, far from overflow and from the
     subnormal doubles.\<close>
  "fl64 x =
     (if x = 0 then 0
      else (let e = binade \<bar>x\<bar> - 52
            in sgn x * (of_int (round_even (\<bar>x\<bar> / 2 powi e)) * 2 powi e)))"

definition js_array_set :: "int list \<Rightarrow> int \<Rightarrow> int \<Rightarrow> int list" where
  \<comment> \<open>\<^verbatim>\<open>a[i] = v\<close> on an array of numbers. Past the end JavaScript extends the array
     with holes, which \<^verbatim>\<open>reduce\<close> skips: they count 0 in the sum. A negative index
     sets a property and leaves the elements alone.\<close>
  "js_array_set xs i v =
     (if i < 0 then xs
      else if nat i < length xs then xs[nat i := v]
      else xs @ replicate (nat i - length xs) 0 @ [v])"

subsection \<open>Preferences and the part plan\<close>

record preferences =
  pref_partSize :: js_num     \<comment> \<open>\<^verbatim>\<open>parseInt(preferences.partSize || "5")\<close>\<close>
  pref_concurrency :: js_num  \<comment> \<open>\<^verbatim>\<open>parseInt(preferences.concurrency || "4")\<close>\<close>
  pref_retryCount :: js_num   \<comment> \<open>\<^verbatim>\<open>parseInt(preferences.retryCount || "3")\<close>\<close>

definition effective_partSize :: "js_num \<Rightarrow> js_num" where
  \<comment> \<open>\<^verbatim>\<open>Math.max(5, parseInt(...)) * 1024 * 1024\<close>, "Minimum 5MB".\<close>
  "effective_partSize p = map_option (\<lambda>a. a * 1024 * 1024) (js_max 5 p)"

definition effective_concurrency :: "js_num \<Rightarrow> js_num" where
  "effective_concurrency c = js_max 1 c"

definition effective_maxRetries :: "js_num \<Rightarrow> js_num" where
  "effective_maxRetries r = js_max 0 r"

record PartInfo =
  partNumber :: int
  start :: int
  end_excl :: int   \<comment> \<open>the field \<^verbatim>\<open>end\<close>\<close>

definition totalParts_of :: "int \<Rightarrow> int \<Rightarrow> int" where
  \<comment> \<open>\<^verbatim>\<open>Math.ceil(fileSize / partSize)\<close>\<close>
  "totalParts_of fsize psize = \<lceil>rat_of_int fsize / rat_of_int psize\<rceil>"

function plan_loop :: "int \<Rightarrow> int \<Rightarrow> int \<Rightarrow> int \<Rightarrow> PartInfo list" where
  "plan_loop i totalParts psize fsize =
     (if i < totalParts
      then \<lparr>partNumber = i + 1, start = i * psize, end_excl = min (i * psize + psize) fsize\<rparr>
             # plan_loop (i + 1) totalParts psize fsize
      else [])"
  by pat_completeness auto
termination
  by (relation "measure (\<lambda>(i, totalParts, psize, fsize). nat (totalParts - i))") auto

declare plan_loop.simps [simp del]

definition plan :: "int \<Rightarrow> int \<Rightarrow> PartInfo list" where
  \<comment> \<open>the array \<^verbatim>\<open>parts\<close> after the planning loop\<close>
  "plan fsize psize = plan_loop 0 (totalParts_of fsize psize) psize fsize"

definition part_len :: "PartInfo \<Rightarrow> int" where
  \<comment> \<open>\<^verbatim>\<open>part.end - part.start\<close>, the local \<^verbatim>\<open>partSize\<close> of \<^verbatim>\<open>uploadPart\<close>\<close>
  "part_len p = end_excl p - start p"

definition percentage_of :: "(rat \<Rightarrow> rat) \<Rightarrow> int \<Rightarrow> int \<Rightarrow> int" where
  \<comment> \<open>\<^verbatim>\<open>Math.round((totalUploaded / fileSize) * 100)\<close>, where \<open>fl\<close> rounds the quotient and
     the product to a double: \<open>fl64\<close> in the source\<close>
  "percentage_of fl totalUploaded fsize =
     js_round (fl (fl (rat_of_int totalUploaded / rat_of_int fsize) * 100))"

subsection \<open>Errors, calls and the state of one upload\<close>

datatype error =
    Error string                      \<comment> \<open>an \<^verbatim>\<open>Error\<close> with this message\<close>
  | PartStatusError int "int option"  \<comment> \<open>"Part n upload failed with status s"\<close>

definition cancelled_error :: error where
  "cancelled_error = Error ''Upload cancelled''"

definition aborted_error :: error where
  "aborted_error = Error ''Upload aborted by user''"

definition range_error :: error where
  \<comment> \<open>what \<^verbatim>\<open>new Array(NaN)\<close> throws\<close>
  "range_error = Error ''Invalid array length''"

fun is_upload_cancelled :: "error \<Rightarrow> bool" where
  \<comment> \<open>\<^verbatim>\<open>err.message === "Upload cancelled"\<close>\<close>
  "is_upload_cancelled (Error m) = (m = ''Upload cancelled'')"
| "is_upload_cancelled (PartStatusError n st) = False"

text \<open>The calls that leave the process, in the order they are made.\<close>

datatype call =
    FPutObject
  | InitiateNewMultipartUpload
  | PresignedUrl int                           \<comment> \<open>for this part number\<close>
  | HttpPut int                                \<comment> \<open>\<^verbatim>\<open>protocol.request\<close> for this part number\<close>
  | AbortMultipartUpload
  | CompleteMultipartUpload "(int \<times> string) list"

text \<open>
  Where a \<^verbatim>\<open>worker\<close> stands between two callbacks: in the \<^verbatim>\<open>await\<close> of
  \<^verbatim>\<open>presignedUrl\<close>, in the promise of its request (with the bytes written so far), in
  the timer before a retry, or settled. \<open>retriesLeft\<close> is the argument of the running
  \<^verbatim>\<open>uploadPartWithRetry\<close>.
\<close>

datatype wstate =
    Presigning PartInfo js_num
  | Sending PartInfo js_num int
  | Backoff PartInfo js_num js_num    \<comment> \<open>part, retriesLeft, delay in ms\<close>
  | Returned
  | Threw error

text \<open>Where \<^verbatim>\<open>handleSubmit\<close> itself stands.\<close>

datatype cstate =
    AwaitFPut
  | AwaitInitiate
  | AwaitWorkers                      \<comment> \<open>in \<^verbatim>\<open>await Promise.all(workers)\<close>\<close>
  | AwaitAlert "PartInfo list" int int int
      \<comment> \<open>in \<^verbatim>\<open>confirmAlert\<close>: failedParts, and the completedPartsCount, totalParts and
         failedPartsCount of its message\<close>
  | AwaitAbort error                  \<comment> \<open>in \<^verbatim>\<open>abortMultipartUpload\<close>, with the error thrown after it\<close>
  | AwaitComplete
  | Terminated "error option"         \<comment> \<open>the upload branch is left: normally, or by this error\<close>

record state =
  fileSize :: int
  partSize :: js_num
  concurrency :: js_num
  maxRetries :: js_num
  totalParts :: int
  parts :: "PartInfo list"
  partProgress :: "int list"
  toast_totalUploaded :: "int option"
    \<comment> \<open>the \<^verbatim>\<open>totalUploaded\<close> from which the last \<^verbatim>\<open>toast.message\<close> of
       \<^verbatim>\<open>updateTotalProgress\<close> was written\<close>
  uploadCancelled :: bool             \<comment> \<open>\<^verbatim>\<open>uploadCancelledRef.current\<close>\<close>
  activeRequests :: "nat list"        \<comment> \<open>\<^verbatim>\<open>activeRequestsRef.current\<close>: a request is named by its worker\<close>
  uploadedParts :: "(int \<times> string) list"
  queue :: "PartInfo list"
  uploadError :: "error option"
  workers :: "(nat \<times> wstate) list"    \<comment> \<open>every worker started so far, with the round that started it\<close>
  roundNo :: nat                        \<comment> \<open>the calls of \<^verbatim>\<open>runUploadWorkers\<close> so far\<close>
  coord :: cstate
  calls :: "call list"

subsection \<open>The closures\<close>

definition updateTotalProgress :: "state \<Rightarrow> state" where
  "updateTotalProgress s =
     s\<lparr>toast_totalUploaded := Some (sum_list (partProgress s))\<rparr>"

definition toast_percentage :: "(rat \<Rightarrow> rat) \<Rightarrow> state \<Rightarrow> int option" where
  \<comment> \<open>the percentage that message shows\<close>
  "toast_percentage fl s =
     map_option (\<lambda>totalUploaded. percentage_of fl totalUploaded (fileSize s)) (toast_totalUploaded s)"

definition set_progress :: "PartInfo \<Rightarrow> int \<Rightarrow> state \<Rightarrow> state" where
  \<comment> \<open>\<^verbatim>\<open>partProgress[part.partNumber - 1] = v\<close>\<close>
  "set_progress p v s = s\<lparr>partProgress := js_array_set (partProgress s) (partNumber p - 1) v\<rparr>"

definition set_worker :: "nat \<Rightarrow> wstate \<Rightarrow> state \<Rightarrow> state" where
  "set_worker w ws s = s\<lparr>workers := (workers s)[w := (fst (workers s ! w), ws)]\<rparr>"

definition worker_at :: "state \<Rightarrow> nat \<Rightarrow> wstate option" where
  "worker_at s w = (if w < length (workers s) then Some (snd (workers s ! w)) else None)"

definition worker_catch :: "nat \<Rightarrow> error \<Rightarrow> state \<Rightarrow> state" where
  \<comment> \<open>the \<^verbatim>\<open>catch\<close> of \<^verbatim>\<open>worker\<close>: both branches throw\<close>
  "worker_catch w err s =
     (if is_upload_cancelled err then set_worker w (Threw err) s
      else set_worker w (Threw err) (s\<lparr>uploadError := Some err\<rparr>))"

definition retry_delay :: "js_num \<Rightarrow> js_num \<Rightarrow> js_num" where
  \<comment> \<open>\<^verbatim>\<open>(maxRetries - retriesLeft + 1) * 1000\<close>\<close>
  "retry_delay m r =
     (case m of None \<Rightarrow> None
      | Some a \<Rightarrow> (case r of None \<Rightarrow> None | Some b \<Rightarrow> Some ((a - b + 1) * 1000)))"

datatype decision = Rethrow | RetryAfter js_num

definition on_failure :: "bool \<Rightarrow> error \<Rightarrow> js_num \<Rightarrow> js_num \<Rightarrow> decision" where
  \<comment> \<open>the \<^verbatim>\<open>catch\<close> of \<^verbatim>\<open>uploadPartWithRetry(part, retriesLeft)\<close>: rethrow, or wait and
     retry. Its arguments: \<^verbatim>\<open>uploadCancelledRef.current\<close>, the error, \<^verbatim>\<open>maxRetries\<close> and
     \<^verbatim>\<open>retriesLeft\<close>.\<close>
  "on_failure cancelled err m retriesLeft =
     (if cancelled \<or> is_upload_cancelled err then Rethrow
      else if js_gt0 retriesLeft then RetryAfter (retry_delay m retriesLeft)
      else Rethrow)"

definition attempt_failed :: "nat \<Rightarrow> PartInfo \<Rightarrow> js_num \<Rightarrow> error \<Rightarrow> state \<Rightarrow> state" where
  \<comment> \<open>worker \<open>w\<close> in that \<^verbatim>\<open>catch\<close>, up to its timer: a rethrown error reaches the
     \<^verbatim>\<open>catch\<close> of \<^verbatim>\<open>worker\<close>; before the wait the counter of the part is reset\<close>
  "attempt_failed w p retriesLeft err s =
     (case on_failure (uploadCancelled s) err (maxRetries s) retriesLeft of
        Rethrow \<Rightarrow> worker_catch w err s
      | RetryAfter d \<Rightarrow>
          set_worker w (Backoff p retriesLeft d) (updateTotalProgress (set_progress p 0 s)))"

definition begin_attempt :: "nat \<Rightarrow> PartInfo \<Rightarrow> js_num \<Rightarrow> state \<Rightarrow> state" where
  \<comment> \<open>\<^verbatim>\<open>uploadPartWithRetry(part, retriesLeft)\<close> up to the \<^verbatim>\<open>await\<close> of \<^verbatim>\<open>presignedUrl\<close>\<close>
  "begin_attempt w p retriesLeft s =
     (if uploadCancelled s then attempt_failed w p retriesLeft cancelled_error s
      else set_worker w (Presigning p retriesLeft)
             (s\<lparr>calls := calls s @ [PresignedUrl (partNumber p)]\<rparr>))"

definition worker_loop :: "nat \<Rightarrow> state \<Rightarrow> state" where
  \<comment> \<open>\<^verbatim>\<open>worker\<close> from the test of its \<^verbatim>\<open>while\<close>\<close>
  "worker_loop w s =
     (case queue s of
        [] \<Rightarrow> set_worker w Returned s
      | p # rest \<Rightarrow>
          if \<not> uploadCancelled s \<and> uploadError s = None
          then begin_attempt w p (maxRetries s) (s\<lparr>queue := rest\<rparr>)
          else set_worker w Returned s)"

definition chunkSize :: int where
  "chunkSize = 64 * 1024"

primrec write_loop :: "nat \<Rightarrow> int \<Rightarrow> int \<Rightarrow> int" where
  \<comment> \<open>the \<^verbatim>\<open>while\<close> of \<^verbatim>\<open>writeChunk\<close>, when the first \<open>n\<close> calls of \<^verbatim>\<open>req.write\<close> return
     true and the next one false: the value of \<^verbatim>\<open>uploaded\<close> after it\<close>
  "write_loop 0 uploaded psize =
     (if uploaded < psize then min (uploaded + chunkSize) psize else uploaded)"
| "write_loop (Suc n) uploaded psize =
     (if uploaded < psize then write_loop n (min (uploaded + chunkSize) psize) psize
      else uploaded)"

definition writeChunk :: "nat \<Rightarrow> PartInfo \<Rightarrow> js_num \<Rightarrow> int \<Rightarrow> nat \<Rightarrow> state \<Rightarrow> state" where
  "writeChunk w p retriesLeft uploaded n s =
     (if uploadCancelled s then attempt_failed w p retriesLeft cancelled_error s
      else if uploaded < part_len p
      then (let u = write_loop n uploaded (part_len p)
            in set_worker w (Sending p retriesLeft u) (updateTotalProgress (set_progress p u s)))
      else set_worker w (Sending p retriesLeft uploaded) s)"

definition status_ok :: "int option \<Rightarrow> bool" where
  \<comment> \<open>\<^verbatim>\<open>res.statusCode && res.statusCode >= 200 && res.statusCode < 300\<close>\<close>
  "status_ok st = (case st of None \<Rightarrow> False | Some c \<Rightarrow> 200 \<le> c \<and> c < 300)"

subsection \<open>The coordinator\<close>

definition finish :: "state \<Rightarrow> state" where
  \<comment> \<open>after the failure loop: abort when cancelled, else sort and complete\<close>
  "finish s =
     (if uploadCancelled s
      then s\<lparr>calls := calls s @ [AbortMultipartUpload], coord := AwaitAbort cancelled_error\<rparr>
      else (let sorted_parts = sort_key fst (uploadedParts s)
            in s\<lparr>uploadedParts := sorted_parts,
                 calls := calls s @ [CompleteMultipartUpload sorted_parts],
                 coord := AwaitComplete\<rparr>))"

definition failed_parts :: "state \<Rightarrow> PartInfo list" where
  \<comment> \<open>\<^verbatim>\<open>parts.filter((p) => !completedPartNumbers.has(p.partNumber))\<close>\<close>
  "failed_parts s = filter (\<lambda>p. partNumber p \<notin> set (map fst (uploadedParts s))) (parts s)"

definition after_round :: "bool \<Rightarrow> state \<Rightarrow> state" where
  \<comment> \<open>from the value \<^verbatim>\<open>uploadSuccess\<close> of \<^verbatim>\<open>runUploadWorkers\<close> to the next \<^verbatim>\<open>await\<close>\<close>
  "after_round uploadSuccess s =
     (if \<not> uploadSuccess \<and> \<not> uploadCancelled s
      then (let failedParts = failed_parts s
            in if length failedParts = 0 then finish s
               else s\<lparr>coord := AwaitAlert failedParts (int (length (uploadedParts s)))
                                  (totalParts s) (int (length failedParts))\<rparr>)
      else finish s)"

definition round_workers :: "state \<Rightarrow> wstate list" where
  \<comment> \<open>the array \<^verbatim>\<open>workers\<close> of the last \<^verbatim>\<open>runUploadWorkers\<close>\<close>
  "round_workers s = map snd (filter (\<lambda>x. fst x = roundNo s) (workers s))"

fun is_Threw :: "wstate \<Rightarrow> bool" where
  "is_Threw (Threw e) = True"
| "is_Threw ws = False"

definition promise_all :: "state \<Rightarrow> state" where
  \<comment> \<open>\<^verbatim>\<open>await Promise.all(workers)\<close> right after the workers are started\<close>
  "promise_all s =
     (if list_ex is_Threw (round_workers s) then after_round False s
      else if list_all (\<lambda>ws. ws = Returned) (round_workers s)
      then after_round (uploadError s = None \<and> queue s = []) s
      else s\<lparr>coord := AwaitWorkers\<rparr>)"

definition promise_all_check :: "nat \<Rightarrow> state \<Rightarrow> state" where
  \<comment> \<open>after a callback of worker \<open>w\<close>: \<^verbatim>\<open>Promise.all\<close> rejects with the first worker of
     its array that throws, and resolves when all of them have returned\<close>
  "promise_all_check w s =
     (if coord s = AwaitWorkers \<and> fst (workers s ! w) = roundNo s
      then (case snd (workers s ! w) of
              Threw err \<Rightarrow> after_round False s
            | Returned \<Rightarrow>
                if list_all (\<lambda>ws. ws = Returned) (round_workers s)
                then after_round (uploadError s = None \<and> queue s = []) s
                else s
            | _ \<Rightarrow> s)
      else s)"

definition worker_count :: "js_num \<Rightarrow> nat \<Rightarrow> nat" where
  \<comment> \<open>the turns of \<^verbatim>\<open>for (i = 0; i < Math.min(concurrency, Math.max(queue.length, 1)); i++)\<close>\<close>
  "worker_count c qlen = (case js_min c (max (int qlen) 1) of None \<Rightarrow> 0 | Some k \<Rightarrow> nat k)"

primrec spawn_workers :: "nat \<Rightarrow> state \<Rightarrow> state" where
  "spawn_workers 0 s = s"
| "spawn_workers (Suc k) s =
     spawn_workers k (worker_loop (length (workers s)) (s\<lparr>workers := workers s @ [(roundNo s, Returned)]\<rparr>))"

definition runUploadWorkers :: "state \<Rightarrow> state" where
  "runUploadWorkers s =
     (let s1 = s\<lparr>uploadError := None, roundNo := Suc (roundNo s)\<rparr>
      in promise_all (spawn_workers (worker_count (concurrency s1) (length (queue s1))) s1))"

primrec reset_progress :: "PartInfo list \<Rightarrow> state \<Rightarrow> state" where
  \<comment> \<open>\<^verbatim>\<open>failedParts.forEach((p) => { partProgress[p.partNumber - 1] = 0; })\<close>\<close>
  "reset_progress [] s = s"
| "reset_progress (p # ps) s = reset_progress ps (set_progress p 0 s)"

definition retry_failed :: "PartInfo list \<Rightarrow> state \<Rightarrow> state" where
  \<comment> \<open>the user chose to retry: the queue is rebuilt from the failed parts, their
     counters are reset, and the workers run again\<close>
  "retry_failed failedParts s =
     runUploadWorkers
       (updateTotalProgress (reset_progress failedParts (s\<lparr>queue := failedParts\<rparr>)))"

definition planned_parts :: "state \<Rightarrow> PartInfo list" where
  \<comment> \<open>what the planning loop pushes (nothing when \<^verbatim>\<open>totalParts\<close> is \<^verbatim>\<open>NaN\<close>)\<close>
  "planned_parts s =
     (case partSize s of None \<Rightarrow> []
      | Some psize \<Rightarrow> plan_loop 0 (totalParts s) psize (fileSize s))"

definition start_workers :: "state \<Rightarrow> state" where
  \<comment> \<open>after \<^verbatim>\<open>initiateNewMultipartUpload\<close>: plan the parts, fill the queue, first round\<close>
  "start_workers s =
     runUploadWorkers (s\<lparr>parts := planned_parts s, queue := planned_parts s\<rparr>)"

definition handleSubmit :: "preferences \<Rightarrow> int \<Rightarrow> state" where
  \<comment> \<open>from \<^verbatim>\<open>fs.statSync\<close> to the first \<^verbatim>\<open>await\<close> of the upload\<close>
  "handleSubmit prefs fsize =
     (let psize = effective_partSize (pref_partSize prefs);
          s = \<lparr>fileSize = fsize, partSize = psize,
               concurrency = effective_concurrency (pref_concurrency prefs),
               maxRetries = effective_maxRetries (pref_retryCount prefs),
               totalParts = 0, parts = [], partProgress = [], toast_totalUploaded = None,
               uploadCancelled = False, activeRequests = [], uploadedParts = [], queue = [],
               uploadError = None, workers = [], roundNo = 0, coord = AwaitFPut, calls = []\<rparr>
      in if js_lt fsize psize then s\<lparr>calls := [FPutObject]\<rparr>
         else (case psize of
                 None \<Rightarrow> s\<lparr>coord := Terminated (Some range_error)\<rparr>
               | Some a \<Rightarrow>
                   s\<lparr>totalParts := totalParts_of fsize a,
                     partProgress := replicate (nat (totalParts_of fsize a)) 0,
                     calls := [InitiateNewMultipartUpload], coord := AwaitInitiate\<rparr>))"

subsection \<open>Events\<close>

text \<open>
  A callback runs only when the closure it resumes waits for it: elsewhere \<open>step\<close> is
  \<open>None\<close>. Which callbacks come, and in which order, is left to the environment: every list
  of events whose steps are defined is a run. Of the environment this much is fixed:
  a request destroyed by \<^verbatim>\<open>cancelUpload\<close> gets no response (its \<^verbatim>\<open>error\<close> and \<^verbatim>\<open>drain\<close> may
  still come); once the promise of a request is settled, later events of that request
  are not followed (a late \<^verbatim>\<open>drain\<close> would write the counter of its part once more, with a
  value up to the length of the part); a rejected \<^verbatim>\<open>confirmAlert\<close> is caught and counts as
  the answer false; and \<^verbatim>\<open>abortMultipartUpload\<close> may fail or not, its error is caught.
\<close>

datatype event =
    FPutDone "error option"           \<comment> \<open>\<^verbatim>\<open>fPutObject\<close> settles\<close>
  | InitiateDone "error option"       \<comment> \<open>\<^verbatim>\<open>initiateNewMultipartUpload\<close> settles\<close>
  | Presigned nat nat
      \<comment> \<open>\<^verbatim>\<open>presignedUrl\<close> of worker \<open>w\<close> resolves; \<open>n\<close> writes are accepted at once\<close>
  | PresignFailed nat error
  | Drain nat nat                     \<comment> \<open>\<^verbatim>\<open>drain\<close> on the request of worker \<open>w\<close>\<close>
  | Response nat "int option" string  \<comment> \<open>its response: status code and ETag\<close>
  | ReqError nat error                \<comment> \<open>its \<^verbatim>\<open>error\<close> event\<close>
  | Timer nat                         \<comment> \<open>the retry timer of worker \<open>w\<close> fires\<close>
  | CancelUpload                      \<comment> \<open>the action \<^verbatim>\<open>cancelUpload\<close>\<close>
  | AlertAnswer bool                  \<comment> \<open>\<^verbatim>\<open>confirmAlert\<close> settles: true is retry\<close>
  | AbortDone                         \<comment> \<open>\<^verbatim>\<open>abortMultipartUpload\<close> settles, either way\<close>
  | CompleteDone "error option"       \<comment> \<open>\<^verbatim>\<open>completeMultipartUpload\<close> settles\<close>

fun is_Terminated :: "cstate \<Rightarrow> bool" where
  "is_Terminated (Terminated r) = True"
| "is_Terminated c = False"

fun worker_of :: "event \<Rightarrow> nat option" where
  \<comment> \<open>the worker whose callback the event is\<close>
  "worker_of (Presigned w n) = Some w"
| "worker_of (PresignFailed w err) = Some w"
| "worker_of (Drain w n) = Some w"
| "worker_of (Response w st etag) = Some w"
| "worker_of (ReqError w err) = Some w"
| "worker_of (Timer w) = Some w"
| "worker_of e = None"

fun worker_callback :: "event \<Rightarrow> state \<Rightarrow> state option" where
  \<comment> \<open>a callback of a worker, up to the point where the worker waits again or settles;
     \<open>None\<close> when the worker is not waiting for it\<close>
  "worker_callback (Presigned w n) s =
     (case worker_at s w of
        Some (Presigning p r) \<Rightarrow>
          Some (if uploadCancelled s then attempt_failed w p r cancelled_error s
                else writeChunk w p r 0 n
                       (s\<lparr>activeRequests := activeRequests s @ [w],
                          calls := calls s @ [HttpPut (partNumber p)]\<rparr>))
      | _ \<Rightarrow> None)"
| "worker_callback (PresignFailed w err) s =
     (case worker_at s w of
        Some (Presigning p r) \<Rightarrow> Some (attempt_failed w p r err s)
      | _ \<Rightarrow> None)"
| "worker_callback (Drain w n) s =
     (case worker_at s w of
        Some (Sending p r u) \<Rightarrow> Some (writeChunk w p r u n s)
      | _ \<Rightarrow> None)"
| "worker_callback (Response w st etag) s =
     (case worker_at s w of
        Some (Sending p r u) \<Rightarrow>
          if w \<in> set (activeRequests s)
          then Some (if status_ok st
                     then worker_loop w
                            (s\<lparr>activeRequests := removeAll w (activeRequests s),
                               uploadedParts := uploadedParts s @ [(partNumber p, etag)]\<rparr>)
                     else attempt_failed w p r (PartStatusError (partNumber p) st)
                            (s\<lparr>activeRequests := removeAll w (activeRequests s)\<rparr>))
          else None
      | _ \<Rightarrow> None)"
| "worker_callback (ReqError w err) s =
     (case worker_at s w of
        Some (Sending p r u) \<Rightarrow>
          Some (attempt_failed w p r err (s\<lparr>activeRequests := removeAll w (activeRequests s)\<rparr>))
      | _ \<Rightarrow> None)"
| "worker_callback (Timer w) s =
     (case worker_at s w of
        Some (Backoff p r d) \<Rightarrow> Some (begin_attempt w p (js_pred r) s)
      | _ \<Rightarrow> None)"
| "worker_callback e s = None"

fun coordinator_callback :: "event \<Rightarrow> state \<Rightarrow> state option" where
  \<comment> \<open>a callback that resumes \<^verbatim>\<open>handleSubmit\<close> itself, and the cancel action\<close>
  "coordinator_callback (FPutDone r) s =
     (if coord s = AwaitFPut then Some (s\<lparr>coord := Terminated r\<rparr>) else None)"
| "coordinator_callback (InitiateDone r) s =
     (if coord s = AwaitInitiate
      then (case r of Some err \<Rightarrow> Some (s\<lparr>coord := Terminated (Some err)\<rparr>)
            | None \<Rightarrow> Some (start_workers s))
      else None)"
| "coordinator_callback CancelUpload s =
     (if is_Terminated (coord s) then None
      else Some (s\<lparr>uploadCancelled := True, activeRequests := []\<rparr>))"
| "coordinator_callback (AlertAnswer shouldRetry) s =
     (case coord s of
        AwaitAlert failedParts c t f \<Rightarrow>
          if shouldRetry then Some (retry_failed failedParts s)
          else Some (s\<lparr>calls := calls s @ [AbortMultipartUpload], coord := AwaitAbort aborted_error\<rparr>)
      | _ \<Rightarrow> None)"
| "coordinator_callback AbortDone s =
     (case coord s of
        AwaitAbort err \<Rightarrow> Some (s\<lparr>coord := Terminated (Some err)\<rparr>)
      | _ \<Rightarrow> None)"
| "coordinator_callback (CompleteDone r) s =
     (if coord s = AwaitComplete then Some (s\<lparr>coord := Terminated r\<rparr>) else None)"
| "coordinator_callback e s = None"

definition step :: "event \<Rightarrow> state \<Rightarrow> state option" where
  \<comment> \<open>one callback of the event loop, with all it wakes up: after a worker's callback,
     \<^verbatim>\<open>Promise.all\<close> may settle and resume \<^verbatim>\<open>handleSubmit\<close>\<close>
  "step e s =
     (case worker_of e of
        Some w \<Rightarrow> map_option (promise_all_check w) (worker_callback e s)
      | None \<Rightarrow> coordinator_callback e s)"

fun run :: "event list \<Rightarrow> state \<Rightarrow> state option" where
  "run [] s = Some s"
| "run (e # es) s = (case step e s of None \<Rightarrow> None | Some s' \<Rightarrow> run es s')"

subsection \<open>One part on its own\<close>

text \<open>
  \<^verbatim>\<open>uploadPartWithRetry\<close> read as a function of what its calls of \<^verbatim>\<open>uploadPart\<close> do:
  each one returns an ETag or throws, and \<^verbatim>\<open>uploadCancelledRef.current\<close> has some value
  when the error is caught. The result is the delays waited (in ms), the number of
  calls of \<^verbatim>\<open>uploadPart\<close>, and the ETag returned or the error thrown; \<open>None\<close> when the
  list ends before the function does.
\<close>

datatype attempt = Succeeds string | Fails error bool

fun uploadPartWithRetry ::
  "js_num \<Rightarrow> js_num \<Rightarrow> attempt list \<Rightarrow> (js_num list \<times> nat \<times> (error + string)) option" where
  "uploadPartWithRetry m retriesLeft [] = None"
| "uploadPartWithRetry m retriesLeft (Succeeds etag # rest) = Some ([], 1, Inr etag)"
| "uploadPartWithRetry m retriesLeft (Fails err cancelled # rest) =
     (case on_failure cancelled err m retriesLeft of
        Rethrow \<Rightarrow> Some ([], 1, Inl err)
      | RetryAfter d \<Rightarrow>
          (case uploadPartWithRetry m (js_pred retriesLeft) rest of
             None \<Rightarrow> None
           | Some (ds, n, res) \<Rightarrow> Some (d # ds, Suc n, res)))"

subsection \<open>Notions used in the statements\<close>

fun is_final_call :: "call \<Rightarrow> bool" where
  "is_final_call AbortMultipartUpload = True"
| "is_final_call (CompleteMultipartUpload ps) = True"
| "is_final_call c = False"

definition final_calls :: "state \<Rightarrow> call list" where
  \<comment> \<open>the calls that end the multipart session, in order\<close>
  "final_calls s = filter is_final_call (calls s)"

fun sorted_call :: "call \<Rightarrow> bool" where
  "sorted_call (CompleteMultipartUpload ps) = sorted (map fst ps)"
| "sorted_call c = True"

fun before_final :: "cstate \<Rightarrow> bool" where
  \<comment> \<open>the coordinator has not yet decided to abort or to complete\<close>
  "before_final AwaitInitiate = True"
| "before_final AwaitWorkers = True"
| "before_final (AwaitAlert fp c t f) = True"
| "before_final c = False"

fun pending :: "wstate \<Rightarrow> bool" where
  \<comment> \<open>the worker has not settled\<close>
  "pending Returned = False"
| "pending (Threw err) = False"
| "pending ws = True"

definition unsettled :: "state \<Rightarrow> nat" where
  "unsettled s = length (filter pending (map snd (workers s)))"


definition round_open :: "state \<Rightarrow> bool" where
  \<comment> \<open>\<^verbatim>\<open>Promise.all\<close> of the running round is not settled: none of its workers has
     thrown and one of them has not returned\<close>
  "round_open s \<longleftrightarrow>
     \<not> list_ex is_Threw (round_workers s) \<and> \<not> list_all (\<lambda>ws. ws = Returned) (round_workers s)"

definition awaiting_open :: "state \<Rightarrow> bool" where
  "awaiting_open s \<longleftrightarrow> (coord s = AwaitWorkers \<longrightarrow> round_open s)"

definition undecided :: "state \<Rightarrow> bool" where
  "undecided s \<longleftrightarrow> (before_final (coord s) \<longrightarrow> final_calls s = [])"




definition failure_of :: "event \<Rightarrow> wstate \<Rightarrow> (error \<times> js_num) option" where
  \<comment> \<open>the error with which this callback fails the attempt of a worker in this state, by
     itself and not by the cancellation flag, and the \<^verbatim>\<open>retriesLeft\<close> of the attempt: a
     response with a bad status, an \<^verbatim>\<open>error\<close> of the request, a rejected \<^verbatim>\<open>presignedUrl\<close>\<close>
  "failure_of e ws =
     (case e of
        Response w st etag \<Rightarrow>
          (case ws of
             Sending p r u \<Rightarrow>
               if status_ok st then None else Some (PartStatusError (partNumber p) st, r)
           | _ \<Rightarrow> None)
      | ReqError w err \<Rightarrow> (case ws of Sending p r u \<Rightarrow> Some (err, r) | _ \<Rightarrow> None)
      | PresignFailed w err \<Rightarrow> (case ws of Presigning p r \<Rightarrow> Some (err, r) | _ \<Rightarrow> None)
      | _ \<Rightarrow> None)"

definition single_shot :: "state \<Rightarrow> bool" where
  "single_shot s \<longleftrightarrow>
     (coord s = AwaitFPut \<or> is_Terminated (coord s)) \<and> calls s = [FPutObject] \<and> workers s = []
     \<and> uploadedParts s = [] \<and> partProgress s = [] \<and> toast_totalUploaded s = None"

definition rejected :: "state \<Rightarrow> bool" where
  "rejected s \<longleftrightarrow>
     is_Terminated (coord s) \<and> calls s = [] \<and> workers s = [] \<and> partProgress s = []
     \<and> toast_totalUploaded s = None"

definition cancel_closed :: "state \<Rightarrow> bool" where
  "cancel_closed s \<longleftrightarrow> (uploadCancelled s \<longrightarrow> activeRequests s = [])"

definition completes_sorted :: "state \<Rightarrow> bool" where
  "completes_sorted s \<longleftrightarrow> list_all sorted_call (final_calls s)"


fun wparts_ok :: "PartInfo list \<Rightarrow> wstate \<Rightarrow> bool" where
  "wparts_ok pl (Presigning p r) = (p \<in> set pl)"
| "wparts_ok pl (Sending p r u) = (p \<in> set pl \<and> 0 \<le> u)"
| "wparts_ok pl (Backoff p r d) = (p \<in> set pl)"
| "wparts_ok pl ws = True"

fun alert_parts :: "cstate \<Rightarrow> PartInfo list" where
  "alert_parts (AwaitAlert fp c t f) = fp"
| "alert_parts c = []"

definition numbered :: "PartInfo list \<Rightarrow> bool" where
  "numbered pl \<longleftrightarrow> (\<forall>i < length pl. partNumber (pl ! i) = int i + 1 \<and> 0 \<le> part_len (pl ! i))"

definition counters_ok :: "PartInfo list \<Rightarrow> int list \<Rightarrow> bool" where
  "counters_ok pl pp \<longleftrightarrow>
     length pp = length pl \<and> (\<forall>i < length pl. 0 \<le> pp ! i \<and> pp ! i \<le> part_len (pl ! i))"

definition spec_percentage :: "int \<Rightarrow> int \<Rightarrow> int" where
  \<comment> \<open>the percentage in the words of the specification: \<open>round(100 \<times> transferred / total)\<close>
     in exact arithmetic, clamped to \<open>[0, 100]\<close>\<close>
  "spec_percentage transferred totalBytes =
     max 0 (min 100 (js_round (100 * rat_of_int transferred / rat_of_int totalBytes)))"

definition halfway :: "int \<Rightarrow> int \<Rightarrow> bool" where
  \<comment> \<open>\<open>100 \<times> transferred / total\<close> lies halfway between two integers\<close>
  "halfway transferred totalBytes \<longleftrightarrow>
     (200 * transferred + totalBytes) mod (2 * totalBytes) = 0"

definition rounding_ok :: "(rat \<Rightarrow> rat) \<Rightarrow> bool" where
  \<comment> \<open>what is used of the rounding to doubles: a relative error of at most \<open>1 / 2 ^ 53\<close>\<close>
  "rounding_ok fl \<longleftrightarrow> (\<forall>x. \<bar>fl x - x\<bar> \<le> \<bar>x\<bar> / 2 ^ 53)"

definition progress_inv :: "PartInfo list \<Rightarrow> state \<Rightarrow> bool" where
  "progress_inv pl s \<longleftrightarrow>
     counters_ok pl (partProgress s) \<and>
     set (queue s) \<subseteq> set pl \<and> set (parts s) \<subseteq> set pl \<and>
     set (alert_parts (coord s)) \<subseteq> set pl \<and>
     (\<forall>x \<in> set (workers s). wparts_ok pl (snd x)) \<and>
     (\<forall>t. toast_totalUploaded s = Some t \<longrightarrow> t = sum_list (partProgress s))"

section \<open>The part plan\<close>


lemma length_plan_loop: "length (plan_loop i n psize fsize) = nat (n - i)"
proof (induction i n psize fsize rule: plan_loop.induct)
  case (1 i n psize fsize)
  show ?case
  proof (cases "i < n")
    case True
    with 1 have "length (plan_loop (i + 1) n psize fsize) = nat (n - (i + 1))" by simp
    with True show ?thesis by (subst plan_loop.simps) (simp add: nat_diff_distrib)
  next
    case False
    then show ?thesis by (subst plan_loop.simps) simp
  qed
qed

lemma nth_plan_loop:
  "k < nat (n - i) \<Longrightarrow>
   plan_loop i n psize fsize ! k =
     \<lparr>partNumber = i + int k + 1, start = (i + int k) * psize,
      end_excl = min ((i + int k) * psize + psize) fsize\<rparr>"
proof (induction i n psize fsize arbitrary: k rule: plan_loop.induct)
  case (1 i n psize fsize)
  from "1.prems" have lt: "i < n" by simp
  show ?case
  proof (cases k)
    case 0
    with lt show ?thesis by (subst plan_loop.simps) simp
  next
    case (Suc j)
    with "1.prems" have "j < nat (n - (i + 1))" by simp
    from "1.IH"[OF lt this] Suc lt show ?thesis
      by (subst plan_loop.simps) (simp add: algebra_simps)
  qed
qed

lemma totalParts_of_div: "totalParts_of fsize psize = - ((- fsize) div psize)"
  unfolding totalParts_of_def by (rule ceiling_divide_eq_div)

lemma totalParts_bounds:
  assumes "0 < psize"
  shows "fsize \<le> totalParts_of fsize psize * psize"
    and "(totalParts_of fsize psize - 1) * psize < fsize"
proof -
  define q where "q = (- fsize) div psize"
  have n: "totalParts_of fsize psize = - q" by (simp add: totalParts_of_div q_def)
  have eq: "- fsize = q * psize + (- fsize) mod psize" by (simp add: q_def)
  have m0: "0 \<le> (- fsize) mod psize" and m1: "(- fsize) mod psize < psize"
    using assms by simp_all
  show "fsize \<le> totalParts_of fsize psize * psize" using eq m0 n by (simp add: algebra_simps) 
  show "(totalParts_of fsize psize - 1) * psize < fsize" using eq m1 n by (simp add: algebra_simps)
qed


lemma totalParts_pos: "0 < fsize \<Longrightarrow> 0 < psize \<Longrightarrow> 0 < totalParts_of fsize psize"
proof -
  assume f: "0 < fsize" and p: "0 < psize"
  from totalParts_bounds(1)[OF p, of fsize] f have "0 < totalParts_of fsize psize * psize" by simp
  with p show ?thesis by (simp add: zero_less_mult_iff)
qed

lemma length_plan: "length (plan fsize psize) = nat (totalParts_of fsize psize)"
  by (simp add: plan_def length_plan_loop)

lemma nth_plan:
  assumes "k < length (plan fsize psize)"
  shows "plan fsize psize ! k =
     \<lparr>partNumber = int k + 1, start = int k * psize,
      end_excl = min (int k * psize + psize) fsize\<rparr>"
  using assms nth_plan_loop[of k "totalParts_of fsize psize" 0 psize fsize]
  by (simp add: plan_def length_plan_loop)

lemma plan_end_inner:
  assumes p: "0 < psize" and k: "Suc k < length (plan fsize psize)"
  shows "end_excl (plan fsize psize ! k) = (int k + 1) * psize"
proof -
  from k have "int k + 1 \<le> totalParts_of fsize psize - 1" by (simp add: length_plan)
  with p have "(int k + 1) * psize \<le> (totalParts_of fsize psize - 1) * psize"
    by (intro mult_right_mono) simp_all
  with totalParts_bounds(2)[OF p, of fsize] have "(int k + 1) * psize < fsize" by simp
  moreover from k have "k < length (plan fsize psize)" by simp
  ultimately show ?thesis by (simp add: nth_plan algebra_simps)
qed

lemma plan_end_last:
  assumes p: "0 < psize" and k: "Suc k = length (plan fsize psize)"
  shows "end_excl (plan fsize psize ! k) = fsize"
proof -
  from k have "int k + 1 = totalParts_of fsize psize" by (simp add: length_plan)
  with totalParts_bounds(1)[OF p, of fsize] have "fsize \<le> (int k + 1) * psize" by simp
  moreover from k have "k < length (plan fsize psize)" by simp
  ultimately show ?thesis by (simp add: nth_plan algebra_simps)
qed

lemma plan_start_lt_fsize:
  assumes p: "0 < psize" and k: "k < length (plan fsize psize)"
  shows "int k * psize < fsize"
proof -
  from k have "int k \<le> totalParts_of fsize psize - 1" by (simp add: length_plan)
  with p have "int k * psize \<le> (totalParts_of fsize psize - 1) * psize"
    by (intro mult_right_mono) simp_all
  with totalParts_bounds(2)[OF p, of fsize] show ?thesis by simp
qed

lemma plan_end_le:
  assumes k: "k < length (plan fsize psize)"
  shows "end_excl (plan fsize psize ! k) \<le> (int k + 1) * psize"
    and "end_excl (plan fsize psize ! k) \<le> fsize"
  using k by (simp_all add: nth_plan algebra_simps)

lemma plan_nonempty_range:
  assumes p: "0 < psize" and k: "k < length (plan fsize psize)"
  shows "start (plan fsize psize ! k) < end_excl (plan fsize psize ! k)"
  using plan_start_lt_fsize[OF p k] p k by (simp add: nth_plan)

lemma plan_cover:
  assumes f: "0 < fsize" and p: "0 < psize"
  shows "(\<Union>q \<in> set (plan fsize psize). {start q ..< end_excl q}) = {0 ..< fsize}"
proof (intro equalityI subsetI)
  fix x assume "x \<in> (\<Union>q \<in> set (plan fsize psize). {start q ..< end_excl q})"
  then obtain q where q: "q \<in> set (plan fsize psize)" and x: "start q \<le> x" "x < end_excl q" by auto
  from q obtain k where k: "k < length (plan fsize psize)" and qk: "q = plan fsize psize ! k"
    by (auto simp: in_set_conv_nth)
  from k qk p have "0 \<le> start q" by (simp add: nth_plan)
  moreover from plan_end_le(2)[OF k] qk have "end_excl q \<le> fsize" by simp
  ultimately show "x \<in> {0 ..< fsize}" using x by simp
next
  fix x assume "x \<in> {0 ..< fsize}"
  then have x0: "0 \<le> x" and xf: "x < fsize" by simp_all
  define k where "k = nat (x div psize)"
  from x0 p have kd: "int k = x div psize" by (simp add: k_def pos_imp_zdiv_nonneg_iff)
  have lo: "int k * psize \<le> x"
  proof -
    have "x = psize * (x div psize) + x mod psize" by simp
    moreover have "0 \<le> x mod psize" using p by simp
    ultimately have "psize * (x div psize) \<le> x" by linarith
    then show ?thesis using kd by (simp add: mult.commute)
  qed
  have hi: "x < (int k + 1) * psize"
  proof -
    have "x = psize * (x div psize) + x mod psize" by simp
    moreover have "x mod psize < psize" using p by simp
    ultimately have "x < psize * (x div psize) + psize" by linarith
    then show ?thesis using kd by (simp add: algebra_simps)
  qed
  have "int k < totalParts_of fsize psize"
  proof (rule ccontr)
    assume "\<not> int k < totalParts_of fsize psize"
    then have "totalParts_of fsize psize \<le> int k" by simp
    with p have "totalParts_of fsize psize * psize \<le> int k * psize" by (intro mult_right_mono) simp_all
    with totalParts_bounds(1)[OF p, of fsize] lo xf show False by simp
  qed
  then have kl: "k < length (plan fsize psize)" by (simp add: length_plan)
  then have "plan fsize psize ! k \<in> set (plan fsize psize)" by simp
  moreover have "x \<in> {start (plan fsize psize ! k) ..< end_excl (plan fsize psize ! k)}"
    using kl lo hi xf by (simp add: nth_plan algebra_simps)
  ultimately show "x \<in> (\<Union>q \<in> set (plan fsize psize). {start q ..< end_excl q})" by blast
qed

lemma plan_disjoint:
  assumes p: "0 < psize" and ij: "i < j" and j: "j < length (plan fsize psize)"
  shows "{start (plan fsize psize ! i) ..< end_excl (plan fsize psize ! i)} \<inter>
         {start (plan fsize psize ! j) ..< end_excl (plan fsize psize ! j)} = {}"
proof -
  from ij j have i: "i < length (plan fsize psize)" by simp
  from ij have "int i + 1 \<le> int j" by simp
  with p have "(int i + 1) * psize \<le> int j * psize" by (intro mult_right_mono) simp_all
  with plan_end_le(1)[OF i] have "end_excl (plan fsize psize ! i) \<le> start (plan fsize psize ! j)"
    using j by (simp add: nth_plan)
  then show ?thesis by auto
qed

text \<open>
  Claim C1. For every \<open>fileSize > 0\<close> and every positive part size (the effective part
  size is at least 5 MiB), the planning loop yields \<open>\<lceil>fileSize / partSize\<rceil>\<close> parts,
  numbered 1, 2, ... in order; the first starts at 0, each part ends where the next one
  starts, the last one ends at \<open>fileSize\<close>; no part is empty, no two parts overlap, and
  together the ranges \<open>[start, end)\<close> are exactly \<open>[0, fileSize)\<close>.
\<close>

theorem plan_partitions_file:
  assumes f: "0 < fsize" and p: "0 < psize"
  shows "int (length (plan fsize psize)) = \<lceil>rat_of_int fsize / rat_of_int psize\<rceil>
    \<and> plan fsize psize \<noteq> []
    \<and> (\<forall>k < length (plan fsize psize). partNumber (plan fsize psize ! k) = int k + 1)
    \<and> start (hd (plan fsize psize)) = 0
    \<and> (\<forall>k. Suc k < length (plan fsize psize) \<longrightarrow>
          end_excl (plan fsize psize ! k) = start (plan fsize psize ! Suc k))
    \<and> end_excl (last (plan fsize psize)) = fsize
    \<and> (\<forall>k < length (plan fsize psize).
          start (plan fsize psize ! k) < end_excl (plan fsize psize ! k))
    \<and> (\<forall>i j. i < j \<and> j < length (plan fsize psize) \<longrightarrow>
          {start (plan fsize psize ! i) ..< end_excl (plan fsize psize ! i)} \<inter>
          {start (plan fsize psize ! j) ..< end_excl (plan fsize psize ! j)} = {})
    \<and> (\<Union>q \<in> set (plan fsize psize). {start q ..< end_excl q}) = {0 ..< fsize}"
proof -
  let ?ps = "plan fsize psize"
  have len: "int (length ?ps) = totalParts_of fsize psize"
    using totalParts_pos[OF f p] by (simp add: length_plan)
  have ne: "?ps \<noteq> []" using totalParts_pos[OF f p] len by auto
  then have l0: "0 < length ?ps" by simp
  have c1: "int (length ?ps) = \<lceil>rat_of_int fsize / rat_of_int psize\<rceil>"
    using len by (simp add: totalParts_of_def)
  have c3: "\<forall>k < length ?ps. partNumber (?ps ! k) = int k + 1" by (simp add: nth_plan)
  have c4: "start (hd ?ps) = 0" using l0 ne by (simp add: hd_conv_nth nth_plan)
  have c5: "\<forall>k. Suc k < length ?ps \<longrightarrow> end_excl (?ps ! k) = start (?ps ! Suc k)"
    using plan_end_inner[OF p] by (simp add: nth_plan algebra_simps)
  have c6: "end_excl (last ?ps) = fsize"
  proof -
    from l0 have "Suc (length ?ps - 1) = length ?ps" by simp
    from plan_end_last[OF p this] ne show ?thesis by (simp add: last_conv_nth)
  qed
  have c7: "\<forall>k < length ?ps. start (?ps ! k) < end_excl (?ps ! k)"
    using plan_nonempty_range[OF p] by blast
  have c8: "\<forall>i j. i < j \<and> j < length ?ps \<longrightarrow>
          {start (?ps ! i) ..< end_excl (?ps ! i)} \<inter> {start (?ps ! j) ..< end_excl (?ps ! j)} = {}"
    using plan_disjoint[OF p] by blast
  from c1 ne c3 c4 c5 c6 c7 c8 plan_cover[OF f p] show ?thesis by blast
qed


theorem plan_partitions_file_witness:
  "(0::int) < 27262976 \<and> (0::int) < 5242880
   \<and> int (length (plan 27262976 5242880)) = 6
   \<and> start (hd (plan 27262976 5242880)) = 0
   \<and> end_excl (last (plan 27262976 5242880)) = 27262976
   \<and> (\<Union>q \<in> set (plan 27262976 5242880). {start q ..< end_excl q}) = {0 ..< 27262976}"
proof -
  have c: "\<lceil>rat_of_int 27262976 / rat_of_int 5242880\<rceil> = 6"
    by (rule ceiling_unique) simp_all
  show ?thesis using plan_partitions_file[of 27262976 5242880] c by simp
qed

section \<open>Runs\<close>

lemma run_invariant:
  assumes "run evs s = Some s'" and "P s"
    and "\<And>e t t'. P t \<Longrightarrow> step e t = Some t' \<Longrightarrow> P t'"
  shows "P s'"
  using assms(1,2)
proof (induction evs arbitrary: s)
  case Nil
  then show ?case by simp
next
  case (Cons e evs)
  then obtain t where t: "step e s = Some t" and r: "run evs t = Some s'"
    by (auto split: option.splits)
  from assms(3)[OF Cons.prems(2) t] have "P t" .
  from Cons.IH[OF r this] show ?case .
qed

lemma run_append:
  "run (es1 @ es2) s = (case run es1 s of None \<Rightarrow> None | Some t \<Rightarrow> run es2 t)"
  by (induction es1 arbitrary: s) (auto split: option.splits)

lemma run_snoc:
  "run es s0 = Some s \<Longrightarrow> run (es @ [e]) s0 = Some s' \<Longrightarrow> step e s = Some s'"
  by (simp add: run_append split: option.splits)

lemma step_simps [simp]:
  "step (FPutDone r) s = coordinator_callback (FPutDone r) s"
  "step (InitiateDone r) s = coordinator_callback (InitiateDone r) s"
  "step CancelUpload s = coordinator_callback CancelUpload s"
  "step (AlertAnswer b) s = coordinator_callback (AlertAnswer b) s"
  "step AbortDone s = coordinator_callback AbortDone s"
  "step (CompleteDone r) s = coordinator_callback (CompleteDone r) s"
  "step (Presigned w n) s = map_option (promise_all_check w) (worker_callback (Presigned w n) s)"
  "step (PresignFailed w err) s =
     map_option (promise_all_check w) (worker_callback (PresignFailed w err) s)"
  "step (Drain w n) s = map_option (promise_all_check w) (worker_callback (Drain w n) s)"
  "step (Response w st etag) s =
     map_option (promise_all_check w) (worker_callback (Response w st etag) s)"
  "step (ReqError w err) s = map_option (promise_all_check w) (worker_callback (ReqError w err) s)"
  "step (Timer w) s = map_option (promise_all_check w) (worker_callback (Timer w) s)"
  by (simp_all add: step_def)

lemma step_cases:
  assumes "step e s = Some s'"
  obtains (worker) w t where "worker_of e = Some w" "worker_callback e s = Some t"
      "s' = promise_all_check w t"
    | (coordinator) "worker_of e = None" "coordinator_callback e s = Some s'"
  using assms by (auto simp: step_def split: option.splits)

section \<open>The choice between the two upload paths\<close>

lemma worker_at_no_workers [simp]: "workers s = [] \<Longrightarrow> worker_at s w = None"
  by (simp add: worker_at_def)

lemma single_shot_step: "single_shot s \<Longrightarrow> step e s = Some s' \<Longrightarrow> single_shot s'"
  by (cases e) (auto simp: single_shot_def split: if_splits cstate.splits)

lemma rejected_step: "rejected s \<Longrightarrow> step e s = Some s' \<Longrightarrow> rejected s'"
  by (cases e) (auto simp: rejected_def split: if_splits cstate.splits)

lemma handleSubmit_small:
  "js_lt fsize (effective_partSize (pref_partSize prefs)) \<Longrightarrow> single_shot (handleSubmit prefs fsize)"
  by (simp add: handleSubmit_def single_shot_def Let_def)

lemma handleSubmit_NaN:
  "effective_partSize (pref_partSize prefs) = None \<Longrightarrow> rejected (handleSubmit prefs fsize)"
  by (simp add: handleSubmit_def rejected_def Let_def js_lt_def)

text \<open>
  Claim C9. A file smaller than the threshold (the effective part size) is sent by the
  single-shot path: whatever happens afterwards, \<^verbatim>\<open>fPutObject\<close> is the only call made, no
  worker is started and \<^verbatim>\<open>initiateNewMultipartUpload\<close> is never called. Conversely, when
  \<^verbatim>\<open>initiateNewMultipartUpload\<close> has been called, the file size is at least the effective
  part size.
\<close>

theorem small_file_single_shot:
  assumes "run evs (handleSubmit prefs fsize) = Some s"
  shows "(js_lt fsize (effective_partSize (pref_partSize prefs)) \<longrightarrow>
            calls s = [FPutObject] \<and> InitiateNewMultipartUpload \<notin> set (calls s)
            \<and> workers s = [] \<and> uploadedParts s = [])
       \<and> (InitiateNewMultipartUpload \<in> set (calls s) \<longrightarrow>
            (\<exists>a. effective_partSize (pref_partSize prefs) = Some a \<and> a \<le> fsize))"
proof (intro conjI impI)
  assume small: "js_lt fsize (effective_partSize (pref_partSize prefs))"
  from run_invariant[of evs _ s single_shot, OF assms handleSubmit_small[OF small] single_shot_step]
  have "single_shot s" .
  then show "calls s = [FPutObject]" "InitiateNewMultipartUpload \<notin> set (calls s)"
    "workers s = []" "uploadedParts s = []"
    by (simp_all add: single_shot_def)
next
  assume ini: "InitiateNewMultipartUpload \<in> set (calls s)"
  show "\<exists>a. effective_partSize (pref_partSize prefs) = Some a \<and> a \<le> fsize"
  proof (cases "effective_partSize (pref_partSize prefs)")
    case None
    from run_invariant[of evs _ s rejected, OF assms handleSubmit_NaN[OF None] rejected_step]
    have "rejected s" .
    with ini show ?thesis by (simp add: rejected_def)
  next
    case (Some a)
    show ?thesis
    proof (cases "fsize < a")
      case True
      with Some have small: "js_lt fsize (effective_partSize (pref_partSize prefs))"
        by (simp add: js_lt_def)
      from run_invariant[of evs _ s single_shot, OF assms handleSubmit_small[OF small] single_shot_step]
      have "single_shot s" .
      with ini show ?thesis by (simp add: single_shot_def)
    next
      case False
      with Some show ?thesis by simp
    qed
  qed
qed

theorem small_file_single_shot_witness:
  "js_lt 1048576 (effective_partSize (pref_partSize
       \<lparr>pref_partSize = Some 5, pref_concurrency = Some 4, pref_retryCount = Some 3\<rparr>))
   \<and> map_option calls (run [CancelUpload, FPutDone None]
        (handleSubmit \<lparr>pref_partSize = Some 5, pref_concurrency = Some 4, pref_retryCount = Some 3\<rparr>
           1048576)) = Some [FPutObject]
   \<and> map_option calls (run [InitiateDone None]
        (handleSubmit \<lparr>pref_partSize = Some 5, pref_concurrency = Some 4, pref_retryCount = Some 3\<rparr>
           5242880)) = Some [InitiateNewMultipartUpload, PresignedUrl 1]
   \<and> effective_partSize (pref_partSize
       \<lparr>pref_partSize = Some 5, pref_concurrency = Some 4, pref_retryCount = Some 3\<rparr>) = Some 5242880
   \<and> (5242880::int) \<le> 5242880"
proof -
  let ?P = "\<lparr>pref_partSize = Some 5, pref_concurrency = Some 4, pref_retryCount = Some 3\<rparr>"
  have small: "js_lt 1048576 (effective_partSize (pref_partSize ?P))" by code_simp
  have eps: "effective_partSize (pref_partSize ?P) = Some 5242880" by code_simp
  have r1: "map_option coord (run [CancelUpload, FPutDone None] (handleSubmit ?P 1048576)) = Some (Terminated None)"
    by code_simp
  then obtain s1 where s1: "run [CancelUpload, FPutDone None] (handleSubmit ?P 1048576) = Some s1"
    by (cases "run [CancelUpload, FPutDone None] (handleSubmit ?P 1048576)") simp_all
  have r2: "map_option calls (run [InitiateDone None] (handleSubmit ?P 5242880))
              = Some [InitiateNewMultipartUpload, PresignedUrl 1]"
    by code_simp
  then obtain s2 where s2: "run [InitiateDone None] (handleSubmit ?P 5242880) = Some s2"
      and c2: "calls s2 = [InitiateNewMultipartUpload, PresignedUrl 1]"
    by (cases "run [InitiateDone None] (handleSubmit ?P 5242880)") simp_all
  from small_file_single_shot[OF s1] small have "calls s1 = [FPutObject]" by blast
  moreover from small_file_single_shot[OF s2] c2
  have "\<exists>a. effective_partSize (pref_partSize ?P) = Some a \<and> a \<le> 5242880" by simp
  ultimately show ?thesis using small eps s1 r2 by simp
qed

text \<open>
  Claim C8, as the code has it. A part size preference below the minimum is not
  rejected: the effective part size is \<open>max 5 a\<close> MiB, so 5 MiB for every \<open>a < 5\<close>. A file
  of size \<open>\<le> 0\<close> is not rejected either: it is smaller than the part size and takes the
  single-shot path, which calls \<^verbatim>\<open>fPutObject\<close>. For a numeric preference the upload
  always starts with a store call and no error.
\<close>

theorem partSize_clamped_not_rejected:
  assumes "pref_partSize prefs = Some a"
  shows "partSize (handleSubmit prefs fsize) = Some (max 5 a * 1024 * 1024)
       \<and> (a < 5 \<longrightarrow> partSize (handleSubmit prefs fsize) = Some (5 * 1024 * 1024))
       \<and> \<not> is_Terminated (coord (handleSubmit prefs fsize))
       \<and> calls (handleSubmit prefs fsize) \<noteq> []
       \<and> (fsize \<le> 0 \<longrightarrow> coord (handleSubmit prefs fsize) = AwaitFPut
                       \<and> calls (handleSubmit prefs fsize) = [FPutObject])"
  using assms
  by (auto simp: handleSubmit_def Let_def effective_partSize_def js_max_def js_lt_def)

theorem partSize_clamped_not_rejected_witness:
  "pref_partSize \<lparr>pref_partSize = Some 1, pref_concurrency = Some 4, pref_retryCount = Some 3\<rparr> = Some 1
   \<and> (1::int) < 5 \<and> (0::int) \<le> 0
   \<and> partSize (handleSubmit \<lparr>pref_partSize = Some 1, pref_concurrency = Some 4, pref_retryCount = Some 3\<rparr> 0)
       = Some 5242880
   \<and> coord (handleSubmit \<lparr>pref_partSize = Some 1, pref_concurrency = Some 4, pref_retryCount = Some 3\<rparr> 0)
       = AwaitFPut
   \<and> calls (handleSubmit \<lparr>pref_partSize = Some 1, pref_concurrency = Some 4, pref_retryCount = Some 3\<rparr> 0)
       = [FPutObject]"
  using partSize_clamped_not_rejected[of
      "\<lparr>pref_partSize = Some 1, pref_concurrency = Some 4, pref_retryCount = Some 3\<rparr>" 1 0]
  by simp

theorem invalid_configuration_counterexample:
  "coord (handleSubmit \<lparr>pref_partSize = Some 1, pref_concurrency = Some 4, pref_retryCount = Some 3\<rparr> 0)
     = AwaitFPut
   \<and> calls (handleSubmit \<lparr>pref_partSize = Some 1, pref_concurrency = Some 4, pref_retryCount = Some 3\<rparr> 0)
     = [FPutObject]
   \<and> coord (handleSubmit \<lparr>pref_partSize = Some 1, pref_concurrency = Some 4, pref_retryCount = Some 3\<rparr> 10485760)
     = AwaitInitiate
   \<and> calls (handleSubmit \<lparr>pref_partSize = Some 1, pref_concurrency = Some 4, pref_retryCount = Some 3\<rparr> 10485760)
     = [InitiateNewMultipartUpload]"
  by code_simp

section \<open>What each closure leaves alone\<close>

lemma updateTotalProgress_frame [simp]:
    "fileSize (updateTotalProgress s) = fileSize s"
    "partSize (updateTotalProgress s) = partSize s"
    "concurrency (updateTotalProgress s) = concurrency s"
    "maxRetries (updateTotalProgress s) = maxRetries s"
    "totalParts (updateTotalProgress s) = totalParts s"
    "parts (updateTotalProgress s) = parts s"
    "partProgress (updateTotalProgress s) = partProgress s"
    "uploadCancelled (updateTotalProgress s) = uploadCancelled s"
    "activeRequests (updateTotalProgress s) = activeRequests s"
    "uploadedParts (updateTotalProgress s) = uploadedParts s"
    "queue (updateTotalProgress s) = queue s"
    "uploadError (updateTotalProgress s) = uploadError s"
    "workers (updateTotalProgress s) = workers s"
    "roundNo (updateTotalProgress s) = roundNo s"
    "coord (updateTotalProgress s) = coord s"
    "calls (updateTotalProgress s) = calls s"
  by (simp_all add: updateTotalProgress_def)

lemma set_progress_frame [simp]:
    "fileSize (set_progress p v s) = fileSize s"
    "partSize (set_progress p v s) = partSize s"
    "concurrency (set_progress p v s) = concurrency s"
    "maxRetries (set_progress p v s) = maxRetries s"
    "totalParts (set_progress p v s) = totalParts s"
    "parts (set_progress p v s) = parts s"
    "toast_totalUploaded (set_progress p v s) = toast_totalUploaded s"
    "uploadCancelled (set_progress p v s) = uploadCancelled s"
    "activeRequests (set_progress p v s) = activeRequests s"
    "uploadedParts (set_progress p v s) = uploadedParts s"
    "queue (set_progress p v s) = queue s"
    "uploadError (set_progress p v s) = uploadError s"
    "workers (set_progress p v s) = workers s"
    "roundNo (set_progress p v s) = roundNo s"
    "coord (set_progress p v s) = coord s"
    "calls (set_progress p v s) = calls s"
  by (simp_all add: set_progress_def)

lemma set_worker_frame [simp]:
    "fileSize (set_worker w ws s) = fileSize s"
    "partSize (set_worker w ws s) = partSize s"
    "concurrency (set_worker w ws s) = concurrency s"
    "maxRetries (set_worker w ws s) = maxRetries s"
    "totalParts (set_worker w ws s) = totalParts s"
    "parts (set_worker w ws s) = parts s"
    "partProgress (set_worker w ws s) = partProgress s"
    "toast_totalUploaded (set_worker w ws s) = toast_totalUploaded s"
    "uploadCancelled (set_worker w ws s) = uploadCancelled s"
    "activeRequests (set_worker w ws s) = activeRequests s"
    "uploadedParts (set_worker w ws s) = uploadedParts s"
    "queue (set_worker w ws s) = queue s"
    "uploadError (set_worker w ws s) = uploadError s"
    "roundNo (set_worker w ws s) = roundNo s"
    "coord (set_worker w ws s) = coord s"
    "calls (set_worker w ws s) = calls s"
  by (simp_all add: set_worker_def)

lemma worker_catch_frame [simp]:
    "fileSize (worker_catch w err s) = fileSize s"
    "partSize (worker_catch w err s) = partSize s"
    "concurrency (worker_catch w err s) = concurrency s"
    "maxRetries (worker_catch w err s) = maxRetries s"
    "totalParts (worker_catch w err s) = totalParts s"
    "parts (worker_catch w err s) = parts s"
    "partProgress (worker_catch w err s) = partProgress s"
    "toast_totalUploaded (worker_catch w err s) = toast_totalUploaded s"
    "uploadCancelled (worker_catch w err s) = uploadCancelled s"
    "activeRequests (worker_catch w err s) = activeRequests s"
    "uploadedParts (worker_catch w err s) = uploadedParts s"
    "queue (worker_catch w err s) = queue s"
    "roundNo (worker_catch w err s) = roundNo s"
    "coord (worker_catch w err s) = coord s"
    "calls (worker_catch w err s) = calls s"
  by (simp_all add: worker_catch_def)

lemma attempt_failed_frame [simp]:
    "fileSize (attempt_failed w p r err s) = fileSize s"
    "partSize (attempt_failed w p r err s) = partSize s"
    "concurrency (attempt_failed w p r err s) = concurrency s"
    "maxRetries (attempt_failed w p r err s) = maxRetries s"
    "totalParts (attempt_failed w p r err s) = totalParts s"
    "parts (attempt_failed w p r err s) = parts s"
    "uploadCancelled (attempt_failed w p r err s) = uploadCancelled s"
    "activeRequests (attempt_failed w p r err s) = activeRequests s"
    "uploadedParts (attempt_failed w p r err s) = uploadedParts s"
    "queue (attempt_failed w p r err s) = queue s"
    "roundNo (attempt_failed w p r err s) = roundNo s"
    "coord (attempt_failed w p r err s) = coord s"
    "calls (attempt_failed w p r err s) = calls s"
  by (simp_all add: attempt_failed_def split: decision.splits)

lemma begin_attempt_frame [simp]:
    "fileSize (begin_attempt w p r s) = fileSize s"
    "partSize (begin_attempt w p r s) = partSize s"
    "concurrency (begin_attempt w p r s) = concurrency s"
    "maxRetries (begin_attempt w p r s) = maxRetries s"
    "totalParts (begin_attempt w p r s) = totalParts s"
    "parts (begin_attempt w p r s) = parts s"
    "uploadCancelled (begin_attempt w p r s) = uploadCancelled s"
    "activeRequests (begin_attempt w p r s) = activeRequests s"
    "uploadedParts (begin_attempt w p r s) = uploadedParts s"
    "queue (begin_attempt w p r s) = queue s"
    "roundNo (begin_attempt w p r s) = roundNo s"
    "coord (begin_attempt w p r s) = coord s"
  by (simp_all add: begin_attempt_def)

lemma worker_loop_frame [simp]:
    "fileSize (worker_loop w s) = fileSize s"
    "partSize (worker_loop w s) = partSize s"
    "concurrency (worker_loop w s) = concurrency s"
    "maxRetries (worker_loop w s) = maxRetries s"
    "totalParts (worker_loop w s) = totalParts s"
    "parts (worker_loop w s) = parts s"
    "uploadCancelled (worker_loop w s) = uploadCancelled s"
    "activeRequests (worker_loop w s) = activeRequests s"
    "uploadedParts (worker_loop w s) = uploadedParts s"
    "roundNo (worker_loop w s) = roundNo s"
    "coord (worker_loop w s) = coord s"
  by (simp_all add: worker_loop_def split: list.splits)

lemma writeChunk_frame [simp]:
    "fileSize (writeChunk w p r u n s) = fileSize s"
    "partSize (writeChunk w p r u n s) = partSize s"
    "concurrency (writeChunk w p r u n s) = concurrency s"
    "maxRetries (writeChunk w p r u n s) = maxRetries s"
    "totalParts (writeChunk w p r u n s) = totalParts s"
    "parts (writeChunk w p r u n s) = parts s"
    "uploadCancelled (writeChunk w p r u n s) = uploadCancelled s"
    "activeRequests (writeChunk w p r u n s) = activeRequests s"
    "uploadedParts (writeChunk w p r u n s) = uploadedParts s"
    "queue (writeChunk w p r u n s) = queue s"
    "roundNo (writeChunk w p r u n s) = roundNo s"
    "coord (writeChunk w p r u n s) = coord s"
    "calls (writeChunk w p r u n s) = calls s"
  by (simp_all add: writeChunk_def Let_def)

lemma finish_frame [simp]:
    "fileSize (finish s) = fileSize s"
    "partSize (finish s) = partSize s"
    "concurrency (finish s) = concurrency s"
    "maxRetries (finish s) = maxRetries s"
    "totalParts (finish s) = totalParts s"
    "parts (finish s) = parts s"
    "partProgress (finish s) = partProgress s"
    "toast_totalUploaded (finish s) = toast_totalUploaded s"
    "uploadCancelled (finish s) = uploadCancelled s"
    "activeRequests (finish s) = activeRequests s"
    "queue (finish s) = queue s"
    "uploadError (finish s) = uploadError s"
    "workers (finish s) = workers s"
    "roundNo (finish s) = roundNo s"
  by (simp_all add: finish_def Let_def)

lemma after_round_frame [simp]:
    "fileSize (after_round b s) = fileSize s"
    "partSize (after_round b s) = partSize s"
    "concurrency (after_round b s) = concurrency s"
    "maxRetries (after_round b s) = maxRetries s"
    "totalParts (after_round b s) = totalParts s"
    "parts (after_round b s) = parts s"
    "partProgress (after_round b s) = partProgress s"
    "toast_totalUploaded (after_round b s) = toast_totalUploaded s"
    "uploadCancelled (after_round b s) = uploadCancelled s"
    "activeRequests (after_round b s) = activeRequests s"
    "queue (after_round b s) = queue s"
    "uploadError (after_round b s) = uploadError s"
    "workers (after_round b s) = workers s"
    "roundNo (after_round b s) = roundNo s"
  by (simp_all add: after_round_def Let_def)

lemma promise_all_frame [simp]:
    "fileSize (promise_all s) = fileSize s"
    "partSize (promise_all s) = partSize s"
    "concurrency (promise_all s) = concurrency s"
    "maxRetries (promise_all s) = maxRetries s"
    "totalParts (promise_all s) = totalParts s"
    "parts (promise_all s) = parts s"
    "partProgress (promise_all s) = partProgress s"
    "toast_totalUploaded (promise_all s) = toast_totalUploaded s"
    "uploadCancelled (promise_all s) = uploadCancelled s"
    "activeRequests (promise_all s) = activeRequests s"
    "queue (promise_all s) = queue s"
    "uploadError (promise_all s) = uploadError s"
    "workers (promise_all s) = workers s"
    "roundNo (promise_all s) = roundNo s"
  by (simp_all add: promise_all_def)

lemma promise_all_check_frame [simp]:
    "fileSize (promise_all_check w s) = fileSize s"
    "partSize (promise_all_check w s) = partSize s"
    "concurrency (promise_all_check w s) = concurrency s"
    "maxRetries (promise_all_check w s) = maxRetries s"
    "totalParts (promise_all_check w s) = totalParts s"
    "parts (promise_all_check w s) = parts s"
    "partProgress (promise_all_check w s) = partProgress s"
    "toast_totalUploaded (promise_all_check w s) = toast_totalUploaded s"
    "uploadCancelled (promise_all_check w s) = uploadCancelled s"
    "activeRequests (promise_all_check w s) = activeRequests s"
    "queue (promise_all_check w s) = queue s"
    "uploadError (promise_all_check w s) = uploadError s"
    "workers (promise_all_check w s) = workers s"
    "roundNo (promise_all_check w s) = roundNo s"
  by (simp_all add: promise_all_check_def split: wstate.splits)


lemma spawn_workers_frame [simp]:
    "fileSize (spawn_workers k s) = fileSize s"
    "partSize (spawn_workers k s) = partSize s"
    "concurrency (spawn_workers k s) = concurrency s"
    "maxRetries (spawn_workers k s) = maxRetries s"
    "totalParts (spawn_workers k s) = totalParts s"
    "parts (spawn_workers k s) = parts s"
    "uploadCancelled (spawn_workers k s) = uploadCancelled s"
    "activeRequests (spawn_workers k s) = activeRequests s"
    "uploadedParts (spawn_workers k s) = uploadedParts s"
    "roundNo (spawn_workers k s) = roundNo s"
    "coord (spawn_workers k s) = coord s"
  by (induction k arbitrary: s; simp)+

lemma runUploadWorkers_frame [simp]:
    "fileSize (runUploadWorkers s) = fileSize s"
    "partSize (runUploadWorkers s) = partSize s"
    "concurrency (runUploadWorkers s) = concurrency s"
    "maxRetries (runUploadWorkers s) = maxRetries s"
    "totalParts (runUploadWorkers s) = totalParts s"
    "parts (runUploadWorkers s) = parts s"
    "uploadCancelled (runUploadWorkers s) = uploadCancelled s"
    "activeRequests (runUploadWorkers s) = activeRequests s"
    "roundNo (runUploadWorkers s) = Suc (roundNo s)"
  by (simp_all add: runUploadWorkers_def Let_def)

lemma reset_progress_frame [simp]:
    "fileSize (reset_progress ps s) = fileSize s"
    "partSize (reset_progress ps s) = partSize s"
    "concurrency (reset_progress ps s) = concurrency s"
    "maxRetries (reset_progress ps s) = maxRetries s"
    "totalParts (reset_progress ps s) = totalParts s"
    "parts (reset_progress ps s) = parts s"
    "toast_totalUploaded (reset_progress ps s) = toast_totalUploaded s"
    "uploadCancelled (reset_progress ps s) = uploadCancelled s"
    "activeRequests (reset_progress ps s) = activeRequests s"
    "uploadedParts (reset_progress ps s) = uploadedParts s"
    "queue (reset_progress ps s) = queue s"
    "uploadError (reset_progress ps s) = uploadError s"
    "workers (reset_progress ps s) = workers s"
    "roundNo (reset_progress ps s) = roundNo s"
    "coord (reset_progress ps s) = coord s"
    "calls (reset_progress ps s) = calls s"
  by (induction ps arbitrary: s; simp)+

lemma retry_failed_frame [simp]:
    "fileSize (retry_failed fp s) = fileSize s"
    "partSize (retry_failed fp s) = partSize s"
    "concurrency (retry_failed fp s) = concurrency s"
    "maxRetries (retry_failed fp s) = maxRetries s"
    "totalParts (retry_failed fp s) = totalParts s"
    "uploadCancelled (retry_failed fp s) = uploadCancelled s"
    "activeRequests (retry_failed fp s) = activeRequests s"
  by (simp_all add: retry_failed_def)

lemma start_workers_frame [simp]:
    "fileSize (start_workers s) = fileSize s"
    "partSize (start_workers s) = partSize s"
    "concurrency (start_workers s) = concurrency s"
    "maxRetries (start_workers s) = maxRetries s"
    "totalParts (start_workers s) = totalParts s"
    "uploadCancelled (start_workers s) = uploadCancelled s"
    "activeRequests (start_workers s) = activeRequests s"
  by (simp_all add: start_workers_def)


lemma begin_attempt_alt:
  "begin_attempt w p r s =
     (if uploadCancelled s then set_worker w (Threw cancelled_error) s
      else set_worker w (Presigning p r) (s\<lparr>calls := calls s @ [PresignedUrl (partNumber p)]\<rparr>))"
  by (simp add: begin_attempt_def attempt_failed_def on_failure_def worker_catch_def cancelled_error_def)

lemma worker_loop_alt:
  "worker_loop w s =
     (if queue s \<noteq> [] \<and> \<not> uploadCancelled s \<and> uploadError s = None
      then set_worker w (Presigning (hd (queue s)) (maxRetries s))
             (s\<lparr>queue := tl (queue s),
                calls := calls s @ [PresignedUrl (partNumber (hd (queue s)))]\<rparr>)
      else set_worker w Returned s)"
  by (simp add: worker_loop_def begin_attempt_alt split: list.splits)

lemma writeChunk_cancelled:
  "uploadCancelled s \<Longrightarrow> writeChunk w p r u n s = set_worker w (Threw cancelled_error) s"
  by (simp add: writeChunk_def attempt_failed_def on_failure_def worker_catch_def cancelled_error_def)

lemma begin_attempt_frame2 [simp]:
    "uploadError (begin_attempt w p r s) = uploadError s"
    "partProgress (begin_attempt w p r s) = partProgress s"
    "toast_totalUploaded (begin_attempt w p r s) = toast_totalUploaded s"
  by (simp_all add: begin_attempt_alt)

lemma worker_loop_frame2 [simp]:
    "uploadError (worker_loop w s) = uploadError s"
    "partProgress (worker_loop w s) = partProgress s"
    "toast_totalUploaded (worker_loop w s) = toast_totalUploaded s"
  by (simp_all add: worker_loop_alt)

lemma spawn_workers_frame2 [simp]:
    "uploadError (spawn_workers k s) = uploadError s"
    "partProgress (spawn_workers k s) = partProgress s"
    "toast_totalUploaded (spawn_workers k s) = toast_totalUploaded s"
  by (induction k arbitrary: s; simp)+

section \<open>Cancellation closes every request\<close>

lemma cancel_closed_step: "cancel_closed s \<Longrightarrow> step e s = Some s' \<Longrightarrow> cancel_closed s'"
  by (cases e)
     (auto simp: cancel_closed_def Let_def split: option.splits wstate.splits if_splits cstate.splits)

lemma cancel_closed_init: "cancel_closed (handleSubmit prefs fsize)"
  by (simp add: cancel_closed_def handleSubmit_def Let_def split: option.splits)

section \<open>The calls that end the session\<close>

lemma final_calls_worker_level [simp]:
  "filter is_final_call (calls (begin_attempt w p r s)) = filter is_final_call (calls s)"
  "filter is_final_call (calls (worker_loop w s)) = filter is_final_call (calls s)"
  by (simp_all add: begin_attempt_alt worker_loop_alt)

lemma final_calls_spawn_workers [simp]:
  "filter is_final_call (calls (spawn_workers k s)) = filter is_final_call (calls s)"
  by (induction k arbitrary: s) simp_all

lemma finish_final_calls:
  "final_calls (finish s) =
     final_calls s @ [if uploadCancelled s then AbortMultipartUpload
                      else CompleteMultipartUpload (sort_key fst (uploadedParts s))]"
  by (simp add: finish_def Let_def final_calls_def)

lemma finish_coord:
  "coord (finish s) = (if uploadCancelled s then AwaitAbort cancelled_error else AwaitComplete)"
  by (simp add: finish_def Let_def)

lemma after_round_cases:
  "after_round b s = finish s \<or>
   (\<not> uploadCancelled s \<and> failed_parts s \<noteq> [] \<and>
    after_round b s = s\<lparr>coord := AwaitAlert (failed_parts s) (int (length (uploadedParts s)))
                                (totalParts s) (int (length (failed_parts s)))\<rparr>)"
  by (auto simp: after_round_def Let_def)

lemma promise_all_check_cases:
  "promise_all_check w s = s \<or>
   (coord s = AwaitWorkers \<and> (\<exists>b. promise_all_check w s = after_round b s))"
  by (auto simp: promise_all_check_def split: wstate.splits)

lemma promise_all_cases:
  "promise_all s = s\<lparr>coord := AwaitWorkers\<rparr> \<or> (\<exists>b. promise_all s = after_round b s)"
  by (auto simp: promise_all_def)

lemma completes_sorted_cong:
  "filter is_final_call (calls t) = filter is_final_call (calls s) \<Longrightarrow>
   completes_sorted t = completes_sorted s"
  by (simp add: completes_sorted_def final_calls_def)

lemma completes_sorted_finish: "completes_sorted s \<Longrightarrow> completes_sorted (finish s)"
  by (simp add: completes_sorted_def finish_final_calls)

lemma completes_sorted_after_round: "completes_sorted s \<Longrightarrow> completes_sorted (after_round b s)"
  using after_round_cases[of b s] completes_sorted_finish[of s]
  by (auto simp: completes_sorted_def final_calls_def)

lemma completes_sorted_promise_all_check:
  "completes_sorted s \<Longrightarrow> completes_sorted (promise_all_check w s)"
  using promise_all_check_cases[of w s] completes_sorted_after_round[of s]
  by auto

lemma completes_sorted_promise_all: "completes_sorted s \<Longrightarrow> completes_sorted (promise_all s)"
  using promise_all_cases[of s] completes_sorted_after_round[of s]
  by (auto simp: completes_sorted_def final_calls_def)

lemma completes_sorted_runUploadWorkers:
  "completes_sorted s \<Longrightarrow> completes_sorted (runUploadWorkers s)"
  unfolding runUploadWorkers_def Let_def
  by (rule completes_sorted_promise_all) (simp add: completes_sorted_def final_calls_def)

lemma completes_sorted_step:
  assumes "completes_sorted s" and "step e s = Some s'"
  shows "completes_sorted s'"
proof (cases e)
  case (InitiateDone r)
  show ?thesis
  proof (cases r)
    case None
    with InitiateDone assms have s': "s' = start_workers s" by (simp split: if_splits)
    show ?thesis unfolding s' start_workers_def
      by (rule completes_sorted_runUploadWorkers)
         (use assms(1) in \<open>simp add: completes_sorted_def final_calls_def\<close>)
  next
    case (Some err)
    with InitiateDone assms show ?thesis
      by (auto simp: completes_sorted_def final_calls_def split: if_splits)
  qed
next
  case (AlertAnswer b)
  show ?thesis
  proof (cases b)
    case True
    with AlertAnswer assms obtain fp c t f where s': "s' = retry_failed fp s"
      by (auto split: cstate.splits)
    show ?thesis unfolding s' retry_failed_def
      by (rule completes_sorted_runUploadWorkers)
         (use assms(1) in \<open>simp add: completes_sorted_def final_calls_def\<close>)
  next
    case False
    with AlertAnswer assms show ?thesis
      by (auto simp: completes_sorted_def final_calls_def split: cstate.splits)
  qed
next
  case (FPutDone r)
  with assms show ?thesis by (auto simp: completes_sorted_def final_calls_def split: if_splits)
next
  case AbortDone
  with assms show ?thesis by (auto simp: completes_sorted_def final_calls_def split: cstate.splits)
next
  case (CompleteDone r)
  with assms show ?thesis by (auto simp: completes_sorted_def final_calls_def split: if_splits)
next
  case CancelUpload
  with assms show ?thesis by (auto simp: completes_sorted_def final_calls_def split: if_splits)
next
  case (Presigned w n)
  with assms obtain t where s': "s' = promise_all_check w t"
    and t: "filter is_final_call (calls t) = filter is_final_call (calls s)"
    by (auto split: option.splits wstate.splits if_splits)
  from completes_sorted_cong[OF t] assms(1) show ?thesis
    unfolding s' by (intro completes_sorted_promise_all_check) simp
next
  case (PresignFailed w err)
  with assms obtain t where s': "s' = promise_all_check w t"
    and t: "filter is_final_call (calls t) = filter is_final_call (calls s)"
    by (auto split: option.splits wstate.splits if_splits)
  from completes_sorted_cong[OF t] assms(1) show ?thesis
    unfolding s' by (intro completes_sorted_promise_all_check) simp
next
  case (Drain w n)
  with assms obtain t where s': "s' = promise_all_check w t"
    and t: "filter is_final_call (calls t) = filter is_final_call (calls s)"
    by (auto split: option.splits wstate.splits if_splits)
  from completes_sorted_cong[OF t] assms(1) show ?thesis
    unfolding s' by (intro completes_sorted_promise_all_check) simp
next
  case (Response w st etag)
  with assms obtain t where s': "s' = promise_all_check w t"
    and t: "filter is_final_call (calls t) = filter is_final_call (calls s)"
    by (auto simp: Let_def split: option.splits wstate.splits if_splits)
  from completes_sorted_cong[OF t] assms(1) show ?thesis
    unfolding s' by (intro completes_sorted_promise_all_check) simp
next
  case (ReqError w err)
  with assms obtain t where s': "s' = promise_all_check w t"
    and t: "filter is_final_call (calls t) = filter is_final_call (calls s)"
    by (auto split: option.splits wstate.splits if_splits)
  from completes_sorted_cong[OF t] assms(1) show ?thesis
    unfolding s' by (intro completes_sorted_promise_all_check) simp
next
  case (Timer w)
  with assms obtain t where s': "s' = promise_all_check w t"
    and t: "filter is_final_call (calls t) = filter is_final_call (calls s)"
    by (auto split: option.splits wstate.splits if_splits)
  from completes_sorted_cong[OF t] assms(1) show ?thesis
    unfolding s' by (intro completes_sorted_promise_all_check) simp
qed

lemma completes_sorted_init: "completes_sorted (handleSubmit prefs fsize)"
  by (simp add: completes_sorted_def final_calls_def handleSubmit_def Let_def split: option.splits)

section \<open>What a worker's callback changes\<close>

lemma set_worker_workers:
  "workers (set_worker w ws s) = (workers s)[w := (fst (workers s ! w), ws)]"
  by (simp add: set_worker_def)

lemma worker_catch_workers:
  "workers (worker_catch w err s) = (workers s)[w := (fst (workers s ! w), Threw err)]"
  by (simp add: worker_catch_def set_worker_def)

lemma attempt_failed_workers:
  "workers (attempt_failed w p r err s) =
     (workers s)[w := (fst (workers s ! w),
        case on_failure (uploadCancelled s) err (maxRetries s) r of
          Rethrow \<Rightarrow> Threw err | RetryAfter d \<Rightarrow> Backoff p r d)]"
  by (simp add: attempt_failed_def worker_catch_workers set_worker_workers split: decision.splits)

lemma writeChunk_workers:
  "workers (writeChunk w p r u n s) =
     (workers s)[w := (fst (workers s ! w),
        if uploadCancelled s then Threw cancelled_error
        else Sending p r (if u < part_len p then write_loop n u (part_len p) else u))]"
  by (simp add: writeChunk_def Let_def set_worker_workers attempt_failed_workers on_failure_def)

lemma begin_attempt_workers:
  "workers (begin_attempt w p r s) =
     (workers s)[w := (fst (workers s ! w),
        if uploadCancelled s then Threw cancelled_error else Presigning p r)]"
  by (simp add: begin_attempt_alt set_worker_workers)

lemma worker_loop_workers:
  "workers (worker_loop w s) =
     (workers s)[w := (fst (workers s ! w),
        if queue s \<noteq> [] \<and> \<not> uploadCancelled s \<and> uploadError s = None
        then Presigning (hd (queue s)) (maxRetries s) else Returned)]"
  by (simp add: worker_loop_alt set_worker_workers)

lemmas worker_level_workers =
  attempt_failed_workers writeChunk_workers begin_attempt_workers worker_loop_workers

lemma worker_callback_workers:
  assumes "worker_callback e s = Some t" and "worker_of e = Some w"
  shows "w < length (workers s) \<and> pending (snd (workers s ! w)) \<and>
         (\<exists>ws. workers t = (workers s)[w := (fst (workers s ! w), ws)])"
  using assms
  by (cases e)
     (auto simp: worker_at_def worker_level_workers split: option.splits wstate.splits if_splits)

lemma worker_callback_frame:
  assumes "worker_callback e s = Some t"
  shows "coord t = coord s" "roundNo t = roundNo s" "parts t = parts s"
    "uploadCancelled t = uploadCancelled s" "fileSize t = fileSize s" "partSize t = partSize s"
    "maxRetries t = maxRetries s" "concurrency t = concurrency s" "totalParts t = totalParts s"
  using assms
  by (cases e; auto split: option.splits wstate.splits if_splits)+

section \<open>While the coordinator waits for the workers\<close>

lemma list_ex_map_snd_filter:
  "list_ex P (map snd (filter Q xs)) \<longleftrightarrow> (\<exists>x \<in> set xs. Q x \<and> P (snd x))"
  by (induction xs) auto

lemma list_all_map_snd_filter:
  "list_all P (map snd (filter Q xs)) \<longleftrightarrow> (\<forall>x \<in> set xs. Q x \<longrightarrow> P (snd x))"
  by (induction xs) auto

lemma round_open_iff:
  "round_open s \<longleftrightarrow>
     (\<forall>x \<in> set (workers s). fst x = roundNo s \<longrightarrow> \<not> is_Threw (snd x)) \<and>
     (\<exists>x \<in> set (workers s). fst x = roundNo s \<and> snd x \<noteq> Returned)"
  by (simp add: round_open_def round_workers_def list_ex_map_snd_filter list_all_map_snd_filter)

lemma round_open_upd [simp]:
  "round_open (s\<lparr>coord := c\<rparr>) = round_open s"
  by (simp add: round_open_def round_workers_def)

lemma after_round_not_awaiting [simp]: "coord (after_round b s) \<noteq> AwaitWorkers"
  by (simp add: after_round_def finish_def Let_def)

lemma promise_all_awaiting:
  "coord (promise_all s) = AwaitWorkers \<Longrightarrow> round_open (promise_all s)"
  by (auto simp: promise_all_def round_open_def round_workers_def split: if_splits)

lemma awaiting_open_runUploadWorkers: "awaiting_open (runUploadWorkers s)"
  by (simp add: awaiting_open_def runUploadWorkers_def Let_def promise_all_awaiting)

lemma filter_update_other:
  "fst (xs ! w) \<noteq> k \<Longrightarrow> filter (\<lambda>x. fst x = k) (xs[w := (fst (xs ! w), y)]) = filter (\<lambda>x. fst x = k) xs"
proof (induction xs arbitrary: w)
  case Nil
  then show ?case by simp
next
  case (Cons a xs)
  then show ?case by (cases w) auto
qed

lemma awaiting_open_worker:
  assumes inv: "awaiting_open s" and cb: "worker_callback e s = Some t"
    and w: "worker_of e = Some w"
  shows "awaiting_open (promise_all_check w t)"
proof -
  from worker_callback_workers[OF cb w] obtain ws where
    wl: "w < length (workers s)" and wt: "workers t = (workers s)[w := (fst (workers s ! w), ws)]"
    by blast
  note fr = worker_callback_frame[OF cb]
  have tw: "workers t ! w = (fst (workers s ! w), ws)" using wl wt by simp
  show ?thesis
  proof (cases "coord (promise_all_check w t) = AwaitWorkers")
    case False
    then show ?thesis by (simp add: awaiting_open_def)
  next
    case True
    then have same: "promise_all_check w t = t" and ct: "coord t = AwaitWorkers"
      using promise_all_check_cases[of w t] by auto
    with inv fr have ro: "round_open s" by (simp add: awaiting_open_def)
    have "round_open t"
    proof (cases "fst (workers s ! w) = roundNo s")
      case False
      then have "round_workers t = round_workers s"
        using wt fr by (simp add: round_workers_def filter_update_other)
      with ro show ?thesis by (simp add: round_open_def)
    next
      case tag: True
      have nt: "\<not> is_Threw ws"
      proof
        assume "is_Threw ws"
        then obtain err where "ws = Threw err" by (cases ws) auto
        with tw tag ct fr have "promise_all_check w t = after_round False t"
          by (simp add: promise_all_check_def)
        with True show False by simp
      qed
      have all: "\<forall>x \<in> set (workers t). fst x = roundNo t \<longrightarrow> \<not> is_Threw (snd x)"
      proof
        fix x assume "x \<in> set (workers t)"
        with wt have "x = (fst (workers s ! w), ws) \<or> x \<in> set (workers s)"
          using set_update_subset_insert[of "workers s" w] by auto
        with nt ro fr show "fst x = roundNo t \<longrightarrow> \<not> is_Threw (snd x)"
          by (auto simp: round_open_iff)
      qed
      have ex: "\<exists>x \<in> set (workers t). fst x = roundNo t \<and> snd x \<noteq> Returned"
      proof (cases "ws = Returned")
        case False
        moreover have "(fst (workers s ! w), ws) \<in> set (workers t)"
          using wl wt by (simp add: set_update_memI)
        ultimately show ?thesis using tag fr
          by (intro bexI[of _ "(fst (workers s ! w), ws)"]) simp_all
      next
        case r: True
        have "\<not> list_all (\<lambda>ws. ws = Returned) (round_workers t)"
        proof
          assume "list_all (\<lambda>ws. ws = Returned) (round_workers t)"
          with tw tag ct fr r
          have "promise_all_check w t = after_round (uploadError t = None \<and> queue t = []) t"
            by (simp add: promise_all_check_def)
          with True show False by simp
        qed
        then show ?thesis by (simp add: round_workers_def list_all_map_snd_filter)
      qed
      from all ex show ?thesis by (simp add: round_open_iff)
    qed
    with same ct show ?thesis by (simp add: awaiting_open_def)
  qed
qed

lemma awaiting_open_step:
  assumes "awaiting_open s" and "step e s = Some s'"
  shows "awaiting_open s'"
  using assms(2)
proof (cases rule: step_cases)
  case (worker w t)
  with awaiting_open_worker[OF assms(1)] show ?thesis by simp
next
  case coordinator
  show ?thesis
  proof (cases e)
    case (InitiateDone r)
    with coordinator assms(1) show ?thesis
      by (auto simp: start_workers_def awaiting_open_runUploadWorkers
          split: if_splits option.splits) (simp add: awaiting_open_def)
  next
    case (AlertAnswer b)
    with coordinator assms(1) show ?thesis
      by (auto simp: retry_failed_def awaiting_open_runUploadWorkers
          split: if_splits cstate.splits) (simp add: awaiting_open_def)
  next
    case CancelUpload
    with coordinator assms(1) show ?thesis
      by (auto simp: awaiting_open_def round_open_def round_workers_def split: if_splits)
  qed (use coordinator assms(1) in \<open>auto simp: awaiting_open_def split: if_splits cstate.splits\<close>)
qed

lemma awaiting_open_init: "awaiting_open (handleSubmit prefs fsize)"
  by (simp add: awaiting_open_def handleSubmit_def Let_def split: option.splits)

section \<open>Abort and complete come last\<close>

lemma worker_callback_final_calls:
  assumes "worker_callback e s = Some t"
  shows "final_calls t = final_calls s"
  using assms
  by (cases e)
     (auto simp: final_calls_def attempt_failed_def writeChunk_def Let_def
       split: option.splits wstate.splits if_splits decision.splits)

lemma after_round_undecided:
  "final_calls s = [] \<Longrightarrow> before_final (coord (after_round b s)) \<Longrightarrow>
   final_calls (after_round b s) = []"
  using after_round_cases[of b s]
  by (auto simp: finish_coord final_calls_def split: if_splits)

lemma undecided_promise_all_check:
  assumes "undecided t"
  shows "undecided (promise_all_check w t)"
  using promise_all_check_cases[of w t] assms after_round_undecided[of t]
  by (auto simp: undecided_def)

lemma undecided_runUploadWorkers:
  assumes "final_calls s = []"
  shows "undecided (runUploadWorkers s)"
proof -
  let ?u = "spawn_workers (worker_count (concurrency s) (length (queue s)))
              (s\<lparr>uploadError := None, roundNo := Suc (roundNo s)\<rparr>)"
  have u: "final_calls ?u = []" using assms by (simp add: final_calls_def)
  have r: "runUploadWorkers s = promise_all ?u" by (simp add: runUploadWorkers_def Let_def)
  from promise_all_cases[of ?u] show ?thesis
  proof
    assume "promise_all ?u = ?u\<lparr>coord := AwaitWorkers\<rparr>"
    with u r show ?thesis by (simp add: undecided_def final_calls_def)
  next
    assume "\<exists>b. promise_all ?u = after_round b ?u"
    then obtain b where "promise_all ?u = after_round b ?u" by blast
    with u r after_round_undecided[of ?u b] show ?thesis by (simp add: undecided_def)
  qed
qed

lemma undecided_step:
  assumes "undecided s" and "step e s = Some s'"
  shows "undecided s'"
  using assms(2)
proof (cases rule: step_cases)
  case (worker w t)
  from worker_callback_final_calls[OF worker(2)] worker_callback_frame(1)[OF worker(2)] assms(1)
  have "undecided t" by (simp add: undecided_def)
  with worker(3) show ?thesis by (simp add: undecided_promise_all_check)
next
  case coordinator
  show ?thesis
  proof (cases e)
    case (InitiateDone r)
    show ?thesis
    proof (cases r)
      case None
      with InitiateDone coordinator have c: "coord s = AwaitInitiate" and s': "s' = start_workers s"
        by (auto split: if_splits)
      from c assms(1) have "final_calls s = []" by (simp add: undecided_def)
      then show ?thesis unfolding s' start_workers_def
        by (intro undecided_runUploadWorkers) (simp add: final_calls_def)
    next
      case (Some err)
      with InitiateDone coordinator show ?thesis by (auto simp: undecided_def split: if_splits)
    qed
  next
    case (AlertAnswer b)
    show ?thesis
    proof (cases b)
      case True
      with AlertAnswer coordinator obtain fp c t f where c: "coord s = AwaitAlert fp c t f"
        and s': "s' = retry_failed fp s"
        by (auto split: cstate.splits)
      from c assms(1) have "final_calls s = []" by (simp add: undecided_def)
      then show ?thesis unfolding s' retry_failed_def
        by (intro undecided_runUploadWorkers) (simp add: final_calls_def)
    next
      case False
      with AlertAnswer coordinator show ?thesis by (auto simp: undecided_def split: cstate.splits)
    qed
  qed (use coordinator assms(1) in
        \<open>auto simp: undecided_def final_calls_def split: if_splits cstate.splits\<close>)
qed

lemma undecided_init: "undecided (handleSubmit prefs fsize)"
  by (simp add: undecided_def final_calls_def handleSubmit_def Let_def js_lt_def
      split: option.splits)

section \<open>After a cancellation\<close>











lemma promise_all_check_workers [simp]: "workers (promise_all_check w t) = workers t"
  by simp

lemma unsettled_cong: "workers t = workers s \<Longrightarrow> unsettled t = unsettled s"
  by (simp add: unsettled_def)






lemma always_invariants:
  assumes "run evs (handleSubmit prefs fsize) = Some s"
  shows "awaiting_open s" "undecided s" "completes_sorted s" "cancel_closed s"
proof -
  show "awaiting_open s"
    using run_invariant[of evs _ s awaiting_open, OF assms awaiting_open_init] awaiting_open_step
    by blast
  show "undecided s"
    using run_invariant[of evs _ s undecided, OF assms undecided_init] undecided_step by blast
  show "completes_sorted s"
    using run_invariant[of evs _ s completes_sorted, OF assms completes_sorted_init]
      completes_sorted_step by blast
  show "cancel_closed s"
    using run_invariant[of evs _ s cancel_closed, OF assms cancel_closed_init] cancel_closed_step
    by blast
qed

text \<open>
  Claim C2. Whatever the order of the callbacks (every list of events is one
  interleaving of the workers), every list of part results passed to
  \<^verbatim>\<open>completeMultipartUpload\<close> is in ascending order of part number.
\<close>

theorem completion_sorted_by_partNumber:
  assumes "run evs (handleSubmit prefs fsize) = Some s"
    and "CompleteMultipartUpload ps \<in> set (calls s)"
  shows "sorted (map fst ps)"
proof -
  from always_invariants(3)[OF assms(1)] have "list_all sorted_call (final_calls s)"
    by (simp add: completes_sorted_def)
  moreover from assms(2) have "CompleteMultipartUpload ps \<in> set (final_calls s)"
    by (simp add: final_calls_def)
  ultimately have "sorted_call (CompleteMultipartUpload ps)" unfolding list_all_iff by blast
  then show ?thesis by simp
qed

theorem completion_sorted_by_partNumber_witness:
  "map_option calls
     (run [InitiateDone None, Presigned 0 79, Presigned 1 79, Response 1 (Some 200) ''b'',
           Response 0 (Some 200) ''a'']
        (handleSubmit \<lparr>pref_partSize = Some 5, pref_concurrency = Some 2, pref_retryCount = Some 3\<rparr>
           10485760))
     = Some [InitiateNewMultipartUpload, PresignedUrl 1, PresignedUrl 2, HttpPut 1, HttpPut 2,
             CompleteMultipartUpload [(1, ''a''), (2, ''b'')]]
   \<and> sorted (map fst [(1::int, ''a''), (2, ''b'')])"
proof -
  let ?r = "run [InitiateDone None, Presigned 0 79, Presigned 1 79, Response 1 (Some 200) ''b'',
           Response 0 (Some 200) ''a'']
        (handleSubmit \<lparr>pref_partSize = Some 5, pref_concurrency = Some 2, pref_retryCount = Some 3\<rparr>
           10485760)"
  have c: "map_option calls ?r
     = Some [InitiateNewMultipartUpload, PresignedUrl 1, PresignedUrl 2, HttpPut 1, HttpPut 2,
             CompleteMultipartUpload [(1, ''a''), (2, ''b'')]]"
    by code_simp
  then obtain s where s: "?r = Some s"
    and cs: "calls s = [InitiateNewMultipartUpload, PresignedUrl 1, PresignedUrl 2, HttpPut 1,
             HttpPut 2, CompleteMultipartUpload [(1, ''a''), (2, ''b'')]]"
    by (cases ?r) simp_all
  from cs have "CompleteMultipartUpload [(1, ''a''), (2, ''b'')] \<in> set (calls s)" by simp
  from completion_sorted_by_partNumber[OF s this] c show ?thesis by simp
qed




section \<open>A part that fails for good\<close>

lemma worker_callback_error_recorded:
  assumes "worker_callback e s = Some t" and "worker_of e = Some w"
    and "uploadError s = None" and "uploadError t \<noteq> None"
  shows "\<exists>err. uploadError t = Some err \<and> worker_at t w = Some (Threw err)" and "queue t = queue s"
  using assms
  by (cases e;
      auto simp: worker_at_def attempt_failed_def writeChunk_def worker_catch_def set_worker_def
        begin_attempt_alt worker_loop_alt Let_def
        split: option.splits wstate.splits if_splits decision.splits)+

lemma worker_callback_error_set:
  assumes "worker_callback e s = Some t" and "worker_of e = Some w" and "uploadError s \<noteq> None"
  shows "queue t = queue s"
    and "\<forall>st etag. e = Response w st etag \<and> status_ok st \<longrightarrow> worker_at t w = Some Returned"
  using assms
  by (cases e;
      auto simp: worker_at_def worker_loop_alt set_worker_def
        split: option.splits wstate.splits if_splits)+

lemma on_failure_exhausted:
  "\<not> c \<Longrightarrow> \<not> is_upload_cancelled err \<Longrightarrow> \<not> js_gt0 r \<Longrightarrow> on_failure c err m r = Rethrow"
  by (simp add: on_failure_def)

lemma attempt_failed_exhausted:
  assumes "\<not> uploadCancelled s" and "\<not> is_upload_cancelled err" and "\<not> js_gt0 r"
  shows "attempt_failed w p r err s = set_worker w (Threw err) (s\<lparr>uploadError := Some err\<rparr>)"
  using assms by (simp add: attempt_failed_def on_failure_exhausted worker_catch_def)

lemma worker_at_promise_all_check [simp]: "worker_at (promise_all_check w t) v = worker_at t v"
  by (simp add: worker_at_def)

lemma uploadedParts_finish:
  "set (uploadedParts (finish s)) = set (uploadedParts s)"
  "length (uploadedParts (finish s)) = length (uploadedParts s)"
  by (simp_all add: finish_def Let_def)

lemma uploadedParts_after_round:
  "set (uploadedParts (after_round b s)) = set (uploadedParts s)"
  "length (uploadedParts (after_round b s)) = length (uploadedParts s)"
  by (simp_all add: after_round_def Let_def uploadedParts_finish)

lemma uploadedParts_promise_all_check:
  "set (uploadedParts (promise_all_check w t)) = set (uploadedParts t)"
  "length (uploadedParts (promise_all_check w t)) = length (uploadedParts t)"
  by (simp_all add: promise_all_check_def uploadedParts_after_round split: wstate.splits)

lemma worker_callback_pushes:
  assumes "worker_callback (Response w st etag) s = Some t" and "status_ok st"
    and "worker_at s w = Some (Sending p r u)"
  shows "uploadedParts t = uploadedParts s @ [(partNumber p, etag)]"
  using assms by (auto simp: worker_loop_alt split: if_splits)

lemma worker_callback_fails_for_good:
  assumes "worker_callback e s = Some t" and "worker_of e = Some w"
    and "worker_at s w = Some ws" and "failure_of e ws = Some (err, r)"
    and "\<not> js_gt0 r" and "\<not> uploadCancelled s" and "\<not> is_upload_cancelled err"
  shows "uploadError t = Some err \<and> worker_at t w = Some (Threw err) \<and> queue t = queue s"
proof -
  have af: "attempt_failed w p r err x = set_worker w (Threw err) (x\<lparr>uploadError := Some err\<rparr>)"
    if "uploadCancelled x = uploadCancelled s" for p x
    using that assms(5-7) by (simp add: attempt_failed_exhausted)
  from assms(3) have len: "w < length (workers s)"
    by (simp add: worker_at_def split: if_splits)
  from assms(4) consider
      (status) v st etag p u where "e = Response v st etag" "ws = Sending p r u" "\<not> status_ok st"
        "err = PartStatusError (partNumber p) st"
    | (reqerr) v p u where "e = ReqError v err" "ws = Sending p r u"
    | (presign) v p where "e = PresignFailed v err" "ws = Presigning p r"
    by (auto simp: failure_of_def split: event.splits wstate.splits if_splits)
  then show ?thesis
  proof cases
    case status
    with assms(2) have v: "v = w" by simp
    from assms(1,3) status v have "t = attempt_failed w p r err (s\<lparr>activeRequests := removeAll w (activeRequests s)\<rparr>)"
      by (auto split: if_splits)
    with af[of "s\<lparr>activeRequests := removeAll w (activeRequests s)\<rparr>" p] len show ?thesis
      by (simp add: worker_at_def set_worker_def)
  next
    case reqerr
    with assms(2) have v: "v = w" by simp
    from assms(1,3) reqerr v have "t = attempt_failed w p r err (s\<lparr>activeRequests := removeAll w (activeRequests s)\<rparr>)"
      by auto
    with af[of "s\<lparr>activeRequests := removeAll w (activeRequests s)\<rparr>" p] len show ?thesis
      by (simp add: worker_at_def set_worker_def)
  next
    case presign
    with assms(2) have v: "v = w" by simp
    from assms(1,3) presign v have "t = attempt_failed w p r err s" by auto
    with af[of s p] len show ?thesis by (simp add: worker_at_def set_worker_def)
  qed
qed

text \<open>
  Claim C5, as the code has it. A worker whose part fails for good (by a bad status, an
  error of the request or a rejected \<^verbatim>\<open>presignedUrl\<close>, with no cancellation and no retry
  left) records the error in \<^verbatim>\<open>uploadError\<close>, throws, and pulls no part. The other workers
  do not keep draining the queue: while the error is recorded no callback of any worker
  takes a part from the queue, and a worker whose part succeeds pushes its result and,
  when an error is recorded, returns. (The test of the \<^verbatim>\<open>while\<close> in \<^verbatim>\<open>worker\<close> reads the
  shared \<^verbatim>\<open>uploadError\<close>.) And \<^verbatim>\<open>uploadError\<close> is set only by a worker that throws it.
\<close>

theorem failure_stops_all_workers:
  assumes "step e s = Some s'" and "worker_of e = Some w"
  shows "(\<forall>ws err r.
            worker_at s w = Some ws \<and> failure_of e ws = Some (err, r) \<and> \<not> js_gt0 r \<and>
            \<not> uploadCancelled s \<and> \<not> is_upload_cancelled err \<longrightarrow>
            uploadError s' = Some err \<and> worker_at s' w = Some (Threw err) \<and> queue s' = queue s)
       \<and> (uploadError s = None \<and> uploadError s' \<noteq> None \<longrightarrow>
            (\<exists>err. uploadError s' = Some err \<and> worker_at s' w = Some (Threw err)) \<and>
            queue s' = queue s)
       \<and> (uploadError s \<noteq> None \<longrightarrow> queue s' = queue s)
       \<and> (\<forall>st etag p r u.
            e = Response w st etag \<and> status_ok st \<and> worker_at s w = Some (Sending p r u) \<longrightarrow>
            (partNumber p, etag) \<in> set (uploadedParts s') \<and>
            length (uploadedParts s') = length (uploadedParts s) + 1 \<and>
            (uploadError s \<noteq> None \<longrightarrow> worker_at s' w = Some Returned))"
  using assms(1)
proof (cases rule: step_cases)
  case (worker w' t)
  with assms(2) have w': "w' = w" by simp
  note cb = worker(2) and s' = worker(3)[unfolded w']
  have 0: "\<forall>ws err r.
            worker_at s w = Some ws \<and> failure_of e ws = Some (err, r) \<and> \<not> js_gt0 r \<and>
            \<not> uploadCancelled s \<and> \<not> is_upload_cancelled err \<longrightarrow>
            uploadError s' = Some err \<and> worker_at s' w = Some (Threw err) \<and> queue s' = queue s"
    using worker_callback_fails_for_good[OF cb assms(2)] s' by auto
  have 1: "uploadError s = None \<and> uploadError s' \<noteq> None \<longrightarrow>
            (\<exists>err. uploadError s' = Some err \<and> worker_at s' w = Some (Threw err)) \<and>
            queue s' = queue s"
    using worker_callback_error_recorded[OF cb assms(2)] s' by simp
  have 2: "uploadError s \<noteq> None \<longrightarrow> queue s' = queue s"
    using worker_callback_error_set(1)[OF cb assms(2)] s' by simp
  have 3: "\<forall>st etag p r u.
            e = Response w st etag \<and> status_ok st \<and> worker_at s w = Some (Sending p r u) \<longrightarrow>
            (partNumber p, etag) \<in> set (uploadedParts s') \<and>
            length (uploadedParts s') = length (uploadedParts s) + 1 \<and>
            (uploadError s \<noteq> None \<longrightarrow> worker_at s' w = Some Returned)"
  proof (intro allI impI)
    fix st etag p r u
    assume h: "e = Response w st etag \<and> status_ok st \<and> worker_at s w = Some (Sending p r u)"
    with cb have "worker_callback (Response w st etag) s = Some t" by simp
    from worker_callback_pushes[OF this] h
    have "uploadedParts t = uploadedParts s @ [(partNumber p, etag)]" by simp
    with s' uploadedParts_promise_all_check[of w t]
    have a: "(partNumber p, etag) \<in> set (uploadedParts s')"
      and b: "length (uploadedParts s') = length (uploadedParts s) + 1"
      by simp_all
    have c: "uploadError s \<noteq> None \<longrightarrow> worker_at s' w = Some Returned"
      using worker_callback_error_set(2)[OF cb assms(2)] h s' by simp
    from a b c show "(partNumber p, etag) \<in> set (uploadedParts s') \<and>
            length (uploadedParts s') = length (uploadedParts s) + 1 \<and>
            (uploadError s \<noteq> None \<longrightarrow> worker_at s' w = Some Returned)"
      by blast
  qed
  from 0 1 2 3 show ?thesis by blast
next
  case coordinator
  with assms(2) show ?thesis by simp
qed

theorem failure_stops_all_workers_witness:
  "worker_of (Response 0 (Some 500) []) = Some 0
   \<and> map_option uploadError
     (run [InitiateDone None, Presigned 0 79, Presigned 1 79]
        (handleSubmit \<lparr>pref_partSize = Some 5, pref_concurrency = Some 2, pref_retryCount = Some 0\<rparr>
           15728640)) = Some None
   \<and> map_option queue
     (run [InitiateDone None, Presigned 0 79, Presigned 1 79]
        (handleSubmit \<lparr>pref_partSize = Some 5, pref_concurrency = Some 2, pref_retryCount = Some 0\<rparr>
           15728640)) = Some [\<lparr>partNumber = 3, start = 10485760, end_excl = 15728640\<rparr>]
   \<and> failure_of (Response 0 (Some 500) [])
        (Sending \<lparr>partNumber = 1, start = 0, end_excl = 5242880\<rparr> (Some 0) 5242880)
       = Some (PartStatusError 1 (Some 500), Some 0)
   \<and> \<not> js_gt0 (Some 0) \<and> \<not> is_upload_cancelled (PartStatusError 1 (Some 500))
   \<and> map_option uploadError
     (run ([InitiateDone None, Presigned 0 79, Presigned 1 79] @ [Response 0 (Some 500) []])
        (handleSubmit \<lparr>pref_partSize = Some 5, pref_concurrency = Some 2, pref_retryCount = Some 0\<rparr>
           15728640)) = Some (Some (PartStatusError 1 (Some 500)))
   \<and> map_option queue
     (run ([InitiateDone None, Presigned 0 79, Presigned 1 79] @ [Response 0 (Some 500) []])
        (handleSubmit \<lparr>pref_partSize = Some 5, pref_concurrency = Some 2, pref_retryCount = Some 0\<rparr>
           15728640)) = Some [\<lparr>partNumber = 3, start = 10485760, end_excl = 15728640\<rparr>]
   \<and> worker_of (Response 1 (Some 200) ''b'') = Some 1
   \<and> status_ok (Some 200)
   \<and> map_option uploadedParts
     (run ([InitiateDone None, Presigned 0 79, Presigned 1 79] @ [Response 0 (Some 500) []])
        (handleSubmit \<lparr>pref_partSize = Some 5, pref_concurrency = Some 2, pref_retryCount = Some 0\<rparr>
           15728640)) = Some []
   \<and> map_option queue
     (run (([InitiateDone None, Presigned 0 79, Presigned 1 79] @ [Response 0 (Some 500) []]) @
           [Response 1 (Some 200) ''b''])
        (handleSubmit \<lparr>pref_partSize = Some 5, pref_concurrency = Some 2, pref_retryCount = Some 0\<rparr>
           15728640)) = Some [\<lparr>partNumber = 3, start = 10485760, end_excl = 15728640\<rparr>]
   \<and> map_option uploadedParts
     (run (([InitiateDone None, Presigned 0 79, Presigned 1 79] @ [Response 0 (Some 500) []]) @
           [Response 1 (Some 200) ''b''])
        (handleSubmit \<lparr>pref_partSize = Some 5, pref_concurrency = Some 2, pref_retryCount = Some 0\<rparr>
           15728640)) = Some [(2, ''b'')]
   \<and> map_option (\<lambda>s. worker_at s 1)
     (run (([InitiateDone None, Presigned 0 79, Presigned 1 79] @ [Response 0 (Some 500) []]) @
           [Response 1 (Some 200) ''b''])
        (handleSubmit \<lparr>pref_partSize = Some 5, pref_concurrency = Some 2, pref_retryCount = Some 0\<rparr>
           15728640)) = Some (Some Returned)"
proof -
  let ?I = "handleSubmit \<lparr>pref_partSize = Some 5, pref_concurrency = Some 2, pref_retryCount = Some 0\<rparr>
           15728640"
  let ?es0 = "[InitiateDone None, Presigned 0 79, Presigned 1 79]"
  let ?e1 = "Response 0 (Some 500) []"
  let ?e2 = "Response 1 (Some 200) ''b''"
  let ?p1 = "\<lparr>partNumber = 1, start = 0, end_excl = 5242880\<rparr>"
  let ?p2 = "\<lparr>partNumber = 2, start = 5242880, end_excl = 10485760\<rparr>"
  let ?p3 = "\<lparr>partNumber = 3, start = 10485760, end_excl = 15728640\<rparr>"
  let ?err = "PartStatusError 1 (Some 500)"
  have w0: "map_option workers (run ?es0 ?I)
      = Some [(1, Sending ?p1 (Some 0) 5242880), (1, Sending ?p2 (Some 0) 5242880)]"
    by code_simp
  have u0: "map_option uploadError (run ?es0 ?I) = Some None" by code_simp
  have q0: "map_option queue (run ?es0 ?I) = Some [?p3]" by code_simp
  have c0: "map_option uploadCancelled (run ?es0 ?I) = Some False" by code_simp
  have w1: "map_option workers (run (?es0 @ [?e1]) ?I)
      = Some [(1, Threw ?err), (1, Sending ?p2 (Some 0) 5242880)]"
    by code_simp
  have p1: "map_option uploadedParts (run (?es0 @ [?e1]) ?I) = Some []" by code_simp
  have x2: "map_option is_Terminated (map_option coord (run ((?es0 @ [?e1]) @ [?e2]) ?I)) = Some False"
    by code_simp
  from w0 u0 q0 c0 obtain s0 where s0: "run ?es0 ?I = Some s0"
    and ws0: "workers s0 = [(1, Sending ?p1 (Some 0) 5242880), (1, Sending ?p2 (Some 0) 5242880)]"
    and us0: "uploadError s0 = None" and qs0: "queue s0 = [?p3]" and cs0: "\<not> uploadCancelled s0"
    by (cases "run ?es0 ?I") simp_all
  from w1 p1 obtain s1 where s1: "run (?es0 @ [?e1]) ?I = Some s1"
    and ws1: "workers s1 = [(1, Threw ?err), (1, Sending ?p2 (Some 0) 5242880)]"
    and ps1: "uploadedParts s1 = []"
    by (cases "run (?es0 @ [?e1]) ?I") simp_all
  from x2 obtain s2 where s2: "run ((?es0 @ [?e1]) @ [?e2]) ?I = Some s2"
    by (cases "run ((?es0 @ [?e1]) @ [?e2]) ?I") simp_all
  from run_snoc[OF s0 s1] have st1: "step ?e1 s0 = Some s1" .
  from run_snoc[OF s1 s2] have st2: "step ?e2 s1 = Some s2" .
  have wo1: "worker_of ?e1 = Some 0" and wo2: "worker_of ?e2 = Some 1" by simp_all
  have ok: "status_ok (Some 200)" by (simp add: status_ok_def)
  have fo: "failure_of ?e1 (Sending ?p1 (Some 0) 5242880) = Some (?err, Some 0)"
    by (simp add: failure_of_def status_ok_def)
  have ex: "\<not> js_gt0 (Some 0)" "\<not> is_upload_cancelled ?err" by (simp_all add: js_gt0_def)
  have at0: "worker_at s0 0 = Some (Sending ?p1 (Some 0) 5242880)"
    using ws0 by (simp add: worker_at_def)
  have at1: "worker_at s1 1 = Some (Sending ?p2 (Some 0) 5242880)"
    using ws1 by (simp add: worker_at_def)
  have h1: "worker_at s0 0 = Some (Sending ?p1 (Some 0) 5242880) \<and>
      failure_of ?e1 (Sending ?p1 (Some 0) 5242880) = Some (?err, Some 0) \<and> \<not> js_gt0 (Some 0) \<and>
      \<not> uploadCancelled s0 \<and> \<not> is_upload_cancelled ?err"
    using at0 fo ex cs0 by blast
  from failure_stops_all_workers[OF st1 wo1, THEN conjunct1, THEN spec, THEN spec, THEN spec,
      THEN mp, OF h1]
  have r1: "uploadError s1 = Some ?err" "worker_at s1 0 = Some (Threw ?err)" "queue s1 = queue s0"
    by blast+
  have h2: "?e2 = Response 1 (Some 200) ''b'' \<and> status_ok (Some 200) \<and>
      worker_at s1 1 = Some (Sending ?p2 (Some 0) 5242880)"
    using ok at1 by blast
  note i2 = failure_stops_all_workers[OF st2 wo2]
  from i2[THEN conjunct2, THEN conjunct2, THEN conjunct1] r1(1)
  have q2: "queue s2 = queue s1" by simp
  from i2[THEN conjunct2, THEN conjunct2, THEN conjunct2, THEN spec, THEN spec, THEN spec,
      THEN spec, THEN spec, THEN mp, OF h2] r1(1)
  have r2: "(2, ''b'') \<in> set (uploadedParts s2)" "length (uploadedParts s2) = length (uploadedParts s1) + 1"
    "worker_at s2 1 = Some Returned"
    by simp_all
  from r2(1,2) ps1 have up2: "uploadedParts s2 = [(2, ''b'')]"
    by (cases "uploadedParts s2") auto
  have a2: "map_option uploadError (run (?es0 @ [?e1]) ?I) = Some (Some ?err)"
    using s1 r1(1) by simp
  have a3: "map_option queue (run (?es0 @ [?e1]) ?I) = Some [?p3]"
    using s1 r1(3) qs0 by simp
  have a5: "map_option queue (run ((?es0 @ [?e1]) @ [?e2]) ?I) = Some [?p3]"
    using s2 q2 r1(3) qs0 by simp
  have a6: "map_option uploadedParts (run ((?es0 @ [?e1]) @ [?e2]) ?I) = Some [(2, ''b'')]"
    using s2 up2 by simp
  have a7: "map_option (\<lambda>s. worker_at s 1) (run ((?es0 @ [?e1]) @ [?e2]) ?I) = Some (Some Returned)"
    using s2 r2(3) by simp
  show ?thesis
    by (intro conjI) (fact wo1 u0 q0 fo ex a2 a3 wo2 ok p1 a5 a6 a7)+
qed

theorem workers_stop_draining_counterexample:
  "map_option workers
     (run [InitiateDone None, Presigned 0 79, Presigned 1 79, Response 0 (Some 500) [],
           Response 1 (Some 200) ''b'']
        (handleSubmit \<lparr>pref_partSize = Some 5, pref_concurrency = Some 2, pref_retryCount = Some 0\<rparr>
           15728640))
     = Some [(1, Threw (PartStatusError 1 (Some 500))), (1, Returned)]
   \<and> map_option queue
     (run [InitiateDone None, Presigned 0 79, Presigned 1 79, Response 0 (Some 500) [],
           Response 1 (Some 200) ''b'']
        (handleSubmit \<lparr>pref_partSize = Some 5, pref_concurrency = Some 2, pref_retryCount = Some 0\<rparr>
           15728640))
     = Some [\<lparr>partNumber = 3, start = 10485760, end_excl = 15728640\<rparr>]
   \<and> map_option uploadCancelled
     (run [InitiateDone None, Presigned 0 79, Presigned 1 79, Response 0 (Some 500) [],
           Response 1 (Some 200) ''b'']
        (handleSubmit \<lparr>pref_partSize = Some 5, pref_concurrency = Some 2, pref_retryCount = Some 0\<rparr>
           15728640))
     = Some False
   \<and> map_option uploadedParts
     (run [InitiateDone None, Presigned 0 79, Presigned 1 79, Response 0 (Some 500) [],
           Response 1 (Some 200) ''b'']
        (handleSubmit \<lparr>pref_partSize = Some 5, pref_concurrency = Some 2, pref_retryCount = Some 0\<rparr>
           15728640))
     = Some [(2, ''b'')]"
  by code_simp

section \<open>Counts of the partial-failure alert\<close>

text \<open>
  Claim C4 at a run the code can take: 15 MiB in three parts, two workers, no automatic
  retry. Part 1 fails while part 2 is in flight, so the alert opens at once; part 2
  completes during the alert; the user retries, which queues parts 1, 2 and 3 again;
  parts 2 and 3 succeed and part 1 fails again. All workers have settled, and the second
  alert reports 3 parts completed of 3 and 1 failed.
\<close>

theorem alert_counts_after_late_completion:
  "map_option coord
     (run [InitiateDone None, Presigned 0 79, Presigned 1 79, Response 0 (Some 500) [],
           Response 1 (Some 200) ''b'', AlertAnswer True, Presigned 2 79, Presigned 3 79,
           Response 3 (Some 200) ''b2'', Presigned 3 79, Response 3 (Some 200) ''c'',
           Response 2 (Some 500) []]
        (handleSubmit \<lparr>pref_partSize = Some 5, pref_concurrency = Some 2, pref_retryCount = Some 0\<rparr>
           15728640))
     = Some (AwaitAlert [\<lparr>partNumber = 1, start = 0, end_excl = 5242880\<rparr>] 3 3 1)
   \<and> map_option unsettled
     (run [InitiateDone None, Presigned 0 79, Presigned 1 79, Response 0 (Some 500) [],
           Response 1 (Some 200) ''b'', AlertAnswer True, Presigned 2 79, Presigned 3 79,
           Response 3 (Some 200) ''b2'', Presigned 3 79, Response 3 (Some 200) ''c'',
           Response 2 (Some 500) []]
        (handleSubmit \<lparr>pref_partSize = Some 5, pref_concurrency = Some 2, pref_retryCount = Some 0\<rparr>
           15728640))
     = Some 0
   \<and> map_option uploadedParts
     (run [InitiateDone None, Presigned 0 79, Presigned 1 79, Response 0 (Some 500) [],
           Response 1 (Some 200) ''b'', AlertAnswer True, Presigned 2 79, Presigned 3 79,
           Response 3 (Some 200) ''b2'', Presigned 3 79, Response 3 (Some 200) ''c'',
           Response 2 (Some 500) []]
        (handleSubmit \<lparr>pref_partSize = Some 5, pref_concurrency = Some 2, pref_retryCount = Some 0\<rparr>
           15728640))
     = Some [(2, ''b''), (2, ''b2''), (3, ''c'')]
   \<and> map_option queue
     (run [InitiateDone None, Presigned 0 79, Presigned 1 79, Response 0 (Some 500) [],
           Response 1 (Some 200) ''b'', AlertAnswer True]
        (handleSubmit \<lparr>pref_partSize = Some 5, pref_concurrency = Some 2, pref_retryCount = Some 0\<rparr>
           15728640))
     = Some [\<lparr>partNumber = 3, start = 10485760, end_excl = 15728640\<rparr>]
   \<and> map_option calls
     (run [InitiateDone None, Presigned 0 79, Presigned 1 79, Response 0 (Some 500) [],
           Response 1 (Some 200) ''b'', AlertAnswer True]
        (handleSubmit \<lparr>pref_partSize = Some 5, pref_concurrency = Some 2, pref_retryCount = Some 0\<rparr>
           15728640))
     = Some [InitiateNewMultipartUpload, PresignedUrl 1, PresignedUrl 2, HttpPut 1, HttpPut 2,
             PresignedUrl 1, PresignedUrl 2]"
  by code_simp

section \<open>Retries of one part\<close>

lemma on_failure_retry:
  "\<not> is_upload_cancelled err \<Longrightarrow> 0 < r \<Longrightarrow>
   on_failure False err (Some m) (Some r) = RetryAfter (Some ((m - r + 1) * 1000))"
  by (simp add: on_failure_def js_gt0_def retry_delay_def)

lemma on_failure_last:
  "\<not> is_upload_cancelled err \<Longrightarrow> on_failure False err (Some m) (Some 0) = Rethrow"
  by (simp add: on_failure_def js_gt0_def)

lemma on_failure_cases:
  "on_failure c err (Some m) (Some r) = Rethrow \<or>
   (0 < r \<and> on_failure c err (Some m) (Some r) = RetryAfter (Some ((m - r + 1) * 1000)))"
  by (simp add: on_failure_def js_gt0_def retry_delay_def)

lemma map_Suc_upt_shift:
  "map f [0..<Suc n] = f 0 # map (\<lambda>k. f (Suc k)) [0..<n]"
  by (simp add: upt_conv_Cons map_Suc_upt[symmetric] del: upt_Suc)

lemma retry_bound:
  assumes "0 \<le> r"
    and "uploadPartWithRetry (Some m) (Some r) outs = Some (ds, n, res)"
  shows "1 \<le> n \<and> n \<le> nat r + 1 \<and>
         ds = map (\<lambda>k. Some ((m - r + int k + 1) * 1000)) [0..<n - 1]"
  using assms
proof (induction outs arbitrary: r ds n res)
  case Nil
  then show ?case by simp
next
  case (Cons a outs)
  show ?case
  proof (cases a)
    case (Succeeds etag)
    with Cons.prems show ?thesis by simp
  next
    case (Fails err c)
    from on_failure_cases[of c err m r] show ?thesis
    proof
      assume "on_failure c err (Some m) (Some r) = Rethrow"
      with Fails Cons.prems show ?thesis by simp
    next
      assume a: "0 < r \<and> on_failure c err (Some m) (Some r) = RetryAfter (Some ((m - r + 1) * 1000))"
      with Fails Cons.prems obtain ds' n' where
        rec: "uploadPartWithRetry (Some m) (Some (r - 1)) outs = Some (ds', n', res)"
        and ds: "ds = Some ((m - r + 1) * 1000) # ds'" and n: "n = Suc n'"
        by (auto simp: js_pred_def split: option.splits)
      from a have "0 \<le> r - 1" by simp
      from Cons.IH[OF this rec]
      have ih: "1 \<le> n'" "n' \<le> nat (r - 1) + 1"
        "ds' = map (\<lambda>k. Some ((m - (r - 1) + int k + 1) * 1000)) [0..<n' - 1]"
        by simp_all
      from ih(1) obtain j where j: "n' = Suc j" by (cases n') simp_all
      have "ds = map (\<lambda>k. Some ((m - r + int k + 1) * 1000)) [0..<Suc j]"
        unfolding map_Suc_upt_shift using ds ih(3) j by (simp add: algebra_simps)
      moreover from a ih(2) have "n \<le> nat r + 1" using n by (simp add: nat_diff_distrib)
      ultimately show ?thesis using n j by simp
    qed
  qed
qed

lemma retry_all_fail:
  assumes "0 \<le> r" and "length pre = nat r"
    and "\<forall>a \<in> set pre. \<exists>e. a = Fails e False \<and> \<not> is_upload_cancelled e"
    and "\<not> is_upload_cancelled err"
  shows "uploadPartWithRetry (Some m) (Some r) (pre @ Fails err False # rest) =
         Some (map (\<lambda>k. Some ((m - r + int k + 1) * 1000)) [0..<nat r], nat r + 1, Inl err)"
  using assms(1,2,3)
proof (induction pre arbitrary: r)
  case Nil
  then have "r = 0" by simp
  with assms(4) show ?case by (simp add: on_failure_last)
next
  case (Cons a pre)
  from Cons.prems(3) obtain e where a: "a = Fails e False" and e: "\<not> is_upload_cancelled e"
    by auto
  from Cons.prems(1,2) have r: "0 < r" and l: "length pre = nat (r - 1)" by auto
  from r have r1: "0 \<le> r - 1" by simp
  from Cons.prems(3) have rest: "\<forall>a \<in> set pre. \<exists>e. a = Fails e False \<and> \<not> is_upload_cancelled e"
    by simp
  from r obtain j where j: "nat r = Suc j" "nat (r - 1) = j"
    by (cases "nat r") (simp_all add: nat_diff_distrib)
  from Cons.IH[OF r1 l rest] a e r j show ?case
    by (simp add: on_failure_retry js_pred_def map_Suc_upt_shift algebra_simps del: upt_Suc)
qed

lemma after_round_not_terminated [simp]: "\<not> is_Terminated (coord (after_round b s))"
  by (simp add: after_round_def finish_def Let_def)

lemma worker_event_keeps_running:
  assumes "step e s = Some s'" and "worker_of e = Some w" and "\<not> is_Terminated (coord s)"
  shows "\<not> is_Terminated (coord s')"
  using assms(1)
proof (cases rule: step_cases)
  case (worker w' t)
  from worker_callback_frame(1)[OF worker(2)] assms(3) have "\<not> is_Terminated (coord t)" by simp
  with promise_all_check_cases[of w' t] worker(3) show ?thesis by auto
next
  case coordinator
  with assms(2) show ?thesis by simp
qed

lemma failed_parts_sorted [simp]:
  "failed_parts (s\<lparr>uploadedParts := sort_key fst (uploadedParts s), calls := c, coord := k\<rparr>)
     = failed_parts s"
  by (simp add: failed_parts_def)

lemma thrown_error_absorbed:
  assumes st: "step e s = Some s'" and w: "worker_of e = Some w"
    and c: "coord s = AwaitWorkers" and nc: "\<not> uploadCancelled s"
    and tag: "fst (workers s ! w) = roundNo s"
    and thr: "worker_at s' w = Some (Threw err)"
  shows "coord s' = AwaitAlert (failed_parts s') (int (length (uploadedParts s'))) (totalParts s')
                      (int (length (failed_parts s')))
         \<or> failed_parts s' = [] \<and> coord s' = AwaitComplete"
  using st
proof (cases rule: step_cases)
  case (worker w' t)
  with w have w': "w' = w" by simp
  note cb = worker(2) and s' = worker(3)[unfolded w']
  note fr = worker_callback_frame[OF cb]
  from worker_callback_workers[OF cb w] obtain ws where
    wl: "w < length (workers s)" and wt: "workers t = (workers s)[w := (fst (workers s ! w), ws)]"
    by blast
  from thr s' have "worker_at t w = Some (Threw err)" by simp
  with wl wt have ws: "snd (workers t ! w) = Threw err" "fst (workers t ! w) = roundNo t"
    using tag fr by (simp_all add: worker_at_def)
  with c fr have "s' = after_round False t" using s' by (simp add: promise_all_check_def)
  with nc fr show ?thesis
    by (auto simp: after_round_def Let_def finish_def failed_parts_def)
next
  case coordinator
  with w show ?thesis by simp
qed

text \<open>
  Claim C6. With \<^verbatim>\<open>maxRetries\<close> \<open>= m \<ge> 0\<close>, one call of \<^verbatim>\<open>uploadPartWithRetry(part)\<close> makes
  at most \<open>m + 1\<close> calls of \<^verbatim>\<open>uploadPart\<close>, and before its \<open>k\<close>-th retry (\<open>k = 1, 2, ...\<close>) it
  waits \<open>k * 1000\<close> ms. When the first \<open>m + 1\<close> calls fail, uncancelled, it has waited 1000,
  2000, ..., \<open>m * 1000\<close> ms and throws the error of the last call. The worker in the
  event loop waits the same delays. No callback of a worker ends the upload: an error
  thrown by a worker of the running round, uncancelled, leaves \<^verbatim>\<open>handleSubmit\<close> in the
  partial-failure alert over the parts not completed (or, when none is left, in the
  completion call); it is not thrown to the caller.
\<close>

theorem retry_bounded_linear_backoff:
  assumes "0 \<le> m"
  shows "(uploadPartWithRetry (Some m) (Some m) outs = Some (ds, n, res) \<longrightarrow>
            1 \<le> n \<and> n \<le> nat m + 1 \<and> ds = map (\<lambda>k. Some ((int k + 1) * 1000)) [0..<n - 1])
       \<and> (length pre = nat m \<and> (\<forall>a \<in> set pre. \<exists>e. a = Fails e False \<and> \<not> is_upload_cancelled e) \<and>
          \<not> is_upload_cancelled err \<longrightarrow>
            uploadPartWithRetry (Some m) (Some m) (pre @ Fails err False # rest) =
              Some (map (\<lambda>k. Some ((int k + 1) * 1000)) [0..<nat m], nat m + 1, Inl err))
       \<and> (maxRetries s = Some m \<and> \<not> uploadCancelled s \<and> \<not> is_upload_cancelled err \<and> 0 < r \<longrightarrow>
            workers (attempt_failed w p (Some r) err s) =
              (workers s)[w := (fst (workers s ! w), Backoff p (Some r) (Some ((m - r + 1) * 1000)))])
       \<and> (step e s = Some s' \<and> worker_of e = Some w \<and> \<not> is_Terminated (coord s) \<longrightarrow>
            \<not> is_Terminated (coord s'))
       \<and> (step e s = Some s' \<and> worker_of e = Some w \<and> coord s = AwaitWorkers \<and>
          \<not> uploadCancelled s \<and> fst (workers s ! w) = roundNo s \<and>
          worker_at s' w = Some (Threw err') \<longrightarrow>
            coord s' = AwaitAlert (failed_parts s') (int (length (uploadedParts s')))
                         (totalParts s') (int (length (failed_parts s')))
            \<or> failed_parts s' = [] \<and> coord s' = AwaitComplete)"
proof -
  have 1: "uploadPartWithRetry (Some m) (Some m) outs = Some (ds, n, res) \<longrightarrow>
            1 \<le> n \<and> n \<le> nat m + 1 \<and> ds = map (\<lambda>k. Some ((int k + 1) * 1000)) [0..<n - 1]"
    using retry_bound[OF assms, of m outs ds n res] by simp
  have 2: "length pre = nat m \<and> (\<forall>a \<in> set pre. \<exists>e. a = Fails e False \<and> \<not> is_upload_cancelled e) \<and>
          \<not> is_upload_cancelled err \<longrightarrow>
            uploadPartWithRetry (Some m) (Some m) (pre @ Fails err False # rest) =
              Some (map (\<lambda>k. Some ((int k + 1) * 1000)) [0..<nat m], nat m + 1, Inl err)"
    using retry_all_fail[OF assms, of pre err m rest] by simp
  have 3: "maxRetries s = Some m \<and> \<not> uploadCancelled s \<and> \<not> is_upload_cancelled err \<and> 0 < r \<longrightarrow>
            workers (attempt_failed w p (Some r) err s) =
              (workers s)[w := (fst (workers s ! w), Backoff p (Some r) (Some ((m - r + 1) * 1000)))]"
    by (simp add: attempt_failed_workers on_failure_retry)
  have 4: "step e s = Some s' \<and> worker_of e = Some w \<and> \<not> is_Terminated (coord s) \<longrightarrow>
            \<not> is_Terminated (coord s')"
    using worker_event_keeps_running by blast
  have 5: "step e s = Some s' \<and> worker_of e = Some w \<and> coord s = AwaitWorkers \<and>
          \<not> uploadCancelled s \<and> fst (workers s ! w) = roundNo s \<and>
          worker_at s' w = Some (Threw err') \<longrightarrow>
            coord s' = AwaitAlert (failed_parts s') (int (length (uploadedParts s')))
                         (totalParts s') (int (length (failed_parts s')))
            \<or> failed_parts s' = [] \<and> coord s' = AwaitComplete"
    using thrown_error_absorbed by blast
  from 1 2 3 4 5 show ?thesis by blast
qed

theorem retry_bounded_linear_backoff_witness:
  "(0::int) \<le> 2
   \<and> uploadPartWithRetry (Some 2) (Some 2)
       ([Fails (Error ''reset'') False, Fails (PartStatusError 2 (Some 503)) False] @
        Fails (PartStatusError 2 (Some 500)) False # [])
     = Some ([Some 1000, Some 2000], 3, Inl (PartStatusError 2 (Some 500)))
   \<and> uploadPartWithRetry (Some 2) (Some 2)
       [Fails (Error ''reset'') False, Fails (PartStatusError 2 (Some 503)) False] = None
   \<and> map_option coord
       (run ([InitiateDone None, Presigned 0 79, Presigned 1 79, Response 1 (Some 500) [],
              Timer 1, Presigned 1 79, Response 1 (Some 500) [], Timer 1, Presigned 1 79] @
             [Response 1 (Some 500) []])
          (handleSubmit \<lparr>pref_partSize = Some 5, pref_concurrency = Some 3, pref_retryCount = Some 2\<rparr>
             12582912))
     = Some (AwaitAlert (plan 12582912 5242880) 0 3 3)"
proof -
  let ?I = "handleSubmit \<lparr>pref_partSize = Some 5, pref_concurrency = Some 3, pref_retryCount = Some 2\<rparr>
             12582912"
  let ?es = "[InitiateDone None, Presigned 0 79, Presigned 1 79, Response 1 (Some 500) [],
              Timer 1, Presigned 1 79, Response 1 (Some 500) [], Timer 1, Presigned 1 79]"
  let ?e = "Response 1 (Some 500) []"
  let ?pre = "[Fails (Error ''reset'') False, Fails (PartStatusError 2 (Some 503)) False]"
  have pre: "length ?pre = nat 2 \<and>
      (\<forall>a \<in> set ?pre. \<exists>e. a = Fails e False \<and> \<not> is_upload_cancelled e) \<and>
      \<not> is_upload_cancelled (PartStatusError 2 (Some 500))"
    by simp
  have short: "uploadPartWithRetry (Some 2) (Some 2) ?pre = None" by code_simp
  have c: "map_option coord (run ?es ?I) = Some AwaitWorkers" by code_simp
  have nc: "map_option uploadCancelled (run ?es ?I) = Some False" by code_simp
  have tag: "map_option (\<lambda>s. fst (workers s ! 1) = roundNo s) (run ?es ?I) = Some True"
    by code_simp
  have thr: "map_option (\<lambda>s. worker_at s 1) (run (?es @ [?e]) ?I)
               = Some (Some (Threw (PartStatusError 2 (Some 500))))"
    by code_simp
  have fp: "map_option failed_parts (run (?es @ [?e]) ?I) = Some (plan 12582912 5242880)"
    by code_simp
  have up: "map_option uploadedParts (run (?es @ [?e]) ?I) = Some []" by code_simp
  have tp: "map_option totalParts (run (?es @ [?e]) ?I) = Some 3" by code_simp
  have pl: "length (plan 12582912 5242880) = 3" by code_simp
  from c nc tag obtain s where s: "run ?es ?I = Some s" and cs: "coord s = AwaitWorkers"
    and ncs: "\<not> uploadCancelled s" and tags: "fst (workers s ! 1) = roundNo s"
    by (cases "run ?es ?I") simp_all
  from thr fp up tp obtain s' where s': "run (?es @ [?e]) ?I = Some s'"
    and thrs: "worker_at s' 1 = Some (Threw (PartStatusError 2 (Some 500)))"
    and fps: "failed_parts s' = plan 12582912 5242880" and ups: "uploadedParts s' = []"
    and tps: "totalParts s' = 3"
    by (cases "run (?es @ [?e]) ?I") simp_all
  from run_snoc[OF s s'] have st: "step ?e s = Some s'" .
  have wo: "worker_of ?e = Some 1" by simp
  have m2: "(0::int) \<le> 2" by simp
  note inst = retry_bounded_linear_backoff[OF m2, where pre = "?pre"
      and err = "PartStatusError 2 (Some 500)" and rest = "[]" and s = s and w = 1 and e = "?e"
      and s' = s' and err' = "PartStatusError 2 (Some 500)"]
  from inst[THEN conjunct2, THEN conjunct1] pre
  have seq: "uploadPartWithRetry (Some 2) (Some 2)
       (?pre @ Fails (PartStatusError 2 (Some 500)) False # [])
     = Some (map (\<lambda>k. Some ((int k + 1) * 1000)) [0..<nat 2], nat 2 + 1,
             Inl (PartStatusError 2 (Some 500)))"
    by (rule mp)
  have nat2: "map (\<lambda>k. Some ((int k + 1) * 1000)) [0..<nat 2] = [Some 1000, Some 2000]"
    "nat 2 + 1 = (3::nat)"
    by (simp_all add: upt_rec)
  have hyp: "step ?e s = Some s' \<and> worker_of ?e = Some 1 \<and> coord s = AwaitWorkers \<and>
          \<not> uploadCancelled s \<and> fst (workers s ! 1) = roundNo s \<and>
          worker_at s' 1 = Some (Threw (PartStatusError 2 (Some 500)))"
    by (intro conjI st wo cs ncs tags thrs)
  from inst[THEN conjunct2, THEN conjunct2, THEN conjunct2, THEN conjunct2] hyp
  have "coord s' = AwaitAlert (failed_parts s') (int (length (uploadedParts s')))
                         (totalParts s') (int (length (failed_parts s')))
            \<or> failed_parts s' = [] \<and> coord s' = AwaitComplete"
    by (rule mp)
  with fps ups tps pl have cs': "coord s' = AwaitAlert (plan 12582912 5242880) 0 3 3" by auto
  from seq short s' cs' show ?thesis unfolding nat2 by (simp only: option.map) simp
qed

section \<open>Progress counters\<close>

lemma numbered_index:
  assumes "numbered pl" and "p \<in> set pl"
  shows "0 \<le> partNumber p - 1" "nat (partNumber p - 1) < length pl"
    "pl ! nat (partNumber p - 1) = p" "0 \<le> part_len p"
proof -
  from assms(2) obtain i where i: "i < length pl" "pl ! i = p" by (auto simp: in_set_conv_nth)
  with assms(1) have n: "partNumber p = int i + 1" and l: "0 \<le> part_len p"
    by (auto simp: numbered_def)
  from n show "0 \<le> partNumber p - 1" by simp
  from n have "nat (partNumber p - 1) = i" by simp
  with i show "nat (partNumber p - 1) < length pl" "pl ! nat (partNumber p - 1) = p" by simp_all
  from l show "0 \<le> part_len p" .
qed

lemma counters_ok_set:
  assumes "numbered pl" and "counters_ok pl pp" and "p \<in> set pl" and "0 \<le> v" and "v \<le> part_len p"
  shows "counters_ok pl (js_array_set pp (partNumber p - 1) v)"
proof -
  note ix = numbered_index[OF assms(1,3)]
  from assms(2) have len: "length pp = length pl" by (simp add: counters_ok_def)
  with ix have eq: "js_array_set pp (partNumber p - 1) v = pp[nat (partNumber p - 1) := v]"
    by (simp add: js_array_set_def)
  show ?thesis unfolding eq counters_ok_def
  proof (intro conjI allI impI)
    show "length (pp[nat (partNumber p - 1) := v]) = length pl" using len by simp
  next
    fix i assume i: "i < length pl"
    show "0 \<le> pp[nat (partNumber p - 1) := v] ! i"
      using assms(2,4) i len by (cases "i = nat (partNumber p - 1)") (simp_all add: counters_ok_def)
  next
    fix i assume i: "i < length pl"
    show "pp[nat (partNumber p - 1) := v] ! i \<le> part_len (pl ! i)"
      using assms(2,5) i len ix(3)
      by (cases "i = nat (partNumber p - 1)") (simp_all add: counters_ok_def)
  qed
qed

lemma write_loop_bounds:
  "0 \<le> u \<Longrightarrow> u \<le> len \<Longrightarrow> 0 \<le> write_loop n u len \<and> write_loop n u len \<le> len"
  by (induction n arbitrary: u) (auto simp: chunkSize_def)

lemma progress_inv_cong:
  assumes "progress_inv pl s"
    and "partProgress t = partProgress s" "queue t = queue s" "parts t = parts s"
    and "coord t = coord s" "workers t = workers s" "toast_totalUploaded t = toast_totalUploaded s"
    and "fileSize t = fileSize s"
  shows "progress_inv pl t"
  using assms by (simp add: progress_inv_def)

lemma progress_inv_set_worker:
  assumes "progress_inv pl s" and "wparts_ok pl ws"
  shows "progress_inv pl (set_worker w ws s)"
proof -
  have "\<forall>x \<in> set ((workers s)[w := (fst (workers s ! w), ws)]). wparts_ok pl (snd x)"
  proof
    fix x assume "x \<in> set ((workers s)[w := (fst (workers s ! w), ws)])"
    then have "x = (fst (workers s ! w), ws) \<or> x \<in> set (workers s)"
      using set_update_subset_insert[of "workers s" w] by auto
    with assms show "wparts_ok pl (snd x)" by (auto simp: progress_inv_def)
  qed
  with assms(1) show ?thesis by (simp add: progress_inv_def set_worker_workers)
qed

lemma progress_inv_progress:
  assumes "numbered pl" and "progress_inv pl s" and "p \<in> set pl" and "0 \<le> v" and "v \<le> part_len p"
  shows "progress_inv pl (updateTotalProgress (set_progress p v s))"
  using assms counters_ok_set[OF assms(1) _ assms(3,4,5), of "partProgress s"]
  by (simp add: progress_inv_def updateTotalProgress_def set_progress_def)

lemma progress_inv_worker_catch:
  "progress_inv pl s \<Longrightarrow> progress_inv pl (worker_catch w err s)"
  unfolding worker_catch_def
  by (auto intro!: progress_inv_set_worker elim: progress_inv_cong)

lemma progress_inv_attempt_failed:
  assumes "numbered pl" and "progress_inv pl s" and "p \<in> set pl"
  shows "progress_inv pl (attempt_failed w p r err s)"
proof (cases "on_failure (uploadCancelled s) err (maxRetries s) r")
  case Rethrow
  with assms(2) show ?thesis by (simp add: attempt_failed_def progress_inv_worker_catch)
next
  case (RetryAfter d)
  from numbered_index(4)[OF assms(1,3)] have "0 \<le> part_len p" .
  from progress_inv_progress[OF assms(1,2,3) _ this] have
    "progress_inv pl (updateTotalProgress (set_progress p 0 s))" by simp
  from progress_inv_set_worker[OF this, of "Backoff p r d" w] assms(3) RetryAfter
  show ?thesis by (simp add: attempt_failed_def)
qed

lemma progress_inv_begin_attempt:
  assumes "progress_inv pl s" and "p \<in> set pl"
  shows "progress_inv pl (begin_attempt w p r s)"
  unfolding begin_attempt_alt using assms
  by (auto intro!: progress_inv_set_worker elim: progress_inv_cong)

lemma progress_inv_worker_loop:
  assumes "progress_inv pl s"
  shows "progress_inv pl (worker_loop w s)"
proof (cases "queue s \<noteq> [] \<and> \<not> uploadCancelled s \<and> uploadError s = None")
  case True
  from assms True have h: "hd (queue s) \<in> set pl" and t: "set (tl (queue s)) \<subseteq> set pl"
    by (auto simp: progress_inv_def dest: list.set_sel(2))
  from assms t have "progress_inv pl (s\<lparr>queue := tl (queue s),
      calls := calls s @ [PresignedUrl (partNumber (hd (queue s)))]\<rparr>)"
    by (simp add: progress_inv_def)
  from progress_inv_set_worker[OF this, of "Presigning (hd (queue s)) (maxRetries s)" w] h True
  show ?thesis by (simp add: worker_loop_alt)
next
  case False
  with assms show ?thesis by (auto simp: worker_loop_alt intro!: progress_inv_set_worker)
qed

lemma progress_inv_writeChunk:
  assumes "numbered pl" and "progress_inv pl s" and "p \<in> set pl" and "0 \<le> u"
  shows "progress_inv pl (writeChunk w p r u n s)"
proof (cases "uploadCancelled s")
  case True
  with assms(2) show ?thesis by (auto simp: writeChunk_cancelled intro!: progress_inv_set_worker)
next
  case nc: False
  show ?thesis
  proof (cases "u < part_len p")
    case True
    with assms(4) write_loop_bounds[of u "part_len p" n]
    have b: "0 \<le> write_loop n u (part_len p)" "write_loop n u (part_len p) \<le> part_len p"
      by simp_all
    from progress_inv_progress[OF assms(1,2,3) b]
    have "progress_inv pl (updateTotalProgress (set_progress p (write_loop n u (part_len p)) s))" .
    from progress_inv_set_worker[OF this, of "Sending p r (write_loop n u (part_len p))" w]
      assms(3) b(1) nc True
    show ?thesis by (simp add: writeChunk_def Let_def)
  next
    case False
    with nc assms show ?thesis by (auto simp: writeChunk_def intro!: progress_inv_set_worker)
  qed
qed

lemma worker_at_ok:
  "progress_inv pl s \<Longrightarrow> worker_at s w = Some ws \<Longrightarrow> wparts_ok pl ws"
  by (auto simp: progress_inv_def worker_at_def split: if_splits)

lemma progress_inv_worker_callback:
  assumes "numbered pl" and "progress_inv pl s" and "worker_callback e s = Some t"
  shows "progress_inv pl t"
proof (cases e)
  case (Presigned w n)
  with assms(3) obtain p r where wa: "worker_at s w = Some (Presigning p r)"
    and t: "t = (if uploadCancelled s then attempt_failed w p r cancelled_error s
                else writeChunk w p r 0 n
                       (s\<lparr>activeRequests := activeRequests s @ [w],
                          calls := calls s @ [HttpPut (partNumber p)]\<rparr>))"
    by (auto split: option.splits wstate.splits)
  from worker_at_ok[OF assms(2) wa] have p: "p \<in> set pl" by simp
  have "progress_inv pl (s\<lparr>activeRequests := activeRequests s @ [w],
                          calls := calls s @ [HttpPut (partNumber p)]\<rparr>)"
    using assms(2) by (simp add: progress_inv_def)
  from progress_inv_writeChunk[OF assms(1) this p, of 0 w r n]
    progress_inv_attempt_failed[OF assms(1,2) p, of w r cancelled_error]
  show ?thesis unfolding t by simp
next
  case (PresignFailed w err)
  with assms(3) obtain p r where wa: "worker_at s w = Some (Presigning p r)"
    and t: "t = attempt_failed w p r err s"
    by (auto split: option.splits wstate.splits)
  from worker_at_ok[OF assms(2) wa] have p: "p \<in> set pl" by simp
  from progress_inv_attempt_failed[OF assms(1,2) p] show ?thesis unfolding t .
next
  case (Drain w n)
  with assms(3) obtain p r u where wa: "worker_at s w = Some (Sending p r u)"
    and t: "t = writeChunk w p r u n s"
    by (auto split: option.splits wstate.splits)
  from worker_at_ok[OF assms(2) wa] have p: "p \<in> set pl" "0 \<le> u" by simp_all
  from progress_inv_writeChunk[OF assms(1,2) p] show ?thesis unfolding t .
next
  case (Response w st etag)
  with assms(3) obtain p r u where wa: "worker_at s w = Some (Sending p r u)"
    and t: "t = (if status_ok st
                     then worker_loop w
                            (s\<lparr>activeRequests := removeAll w (activeRequests s),
                               uploadedParts := uploadedParts s @ [(partNumber p, etag)]\<rparr>)
                     else attempt_failed w p r (PartStatusError (partNumber p) st)
                            (s\<lparr>activeRequests := removeAll w (activeRequests s)\<rparr>))"
    by (auto split: option.splits wstate.splits if_splits)
  from worker_at_ok[OF assms(2) wa] have p: "p \<in> set pl" by simp
  have a: "progress_inv pl (s\<lparr>activeRequests := removeAll w (activeRequests s),
                               uploadedParts := uploadedParts s @ [(partNumber p, etag)]\<rparr>)"
    and b: "progress_inv pl (s\<lparr>activeRequests := removeAll w (activeRequests s)\<rparr>)"
    using assms(2) by (simp_all add: progress_inv_def)
  from progress_inv_worker_loop[OF a] progress_inv_attempt_failed[OF assms(1) b p]
  show ?thesis unfolding t by simp
next
  case (ReqError w err)
  with assms(3) obtain p r u where wa: "worker_at s w = Some (Sending p r u)"
    and t: "t = attempt_failed w p r err (s\<lparr>activeRequests := removeAll w (activeRequests s)\<rparr>)"
    by (auto split: option.splits wstate.splits)
  from worker_at_ok[OF assms(2) wa] have p: "p \<in> set pl" by simp
  have b: "progress_inv pl (s\<lparr>activeRequests := removeAll w (activeRequests s)\<rparr>)"
    using assms(2) by (simp add: progress_inv_def)
  from progress_inv_attempt_failed[OF assms(1) b p] show ?thesis unfolding t .
next
  case (Timer w)
  with assms(3) obtain p r d where wa: "worker_at s w = Some (Backoff p r d)"
    and t: "t = begin_attempt w p (js_pred r) s"
    by (auto split: option.splits wstate.splits)
  from worker_at_ok[OF assms(2) wa] have p: "p \<in> set pl" by simp
  from progress_inv_begin_attempt[OF assms(2) p] show ?thesis unfolding t .
qed (use assms(3) in simp_all)

lemma progress_inv_finish: "progress_inv pl s \<Longrightarrow> progress_inv pl (finish s)"
  by (simp add: progress_inv_def finish_def Let_def)

lemma failed_parts_subset: "set (failed_parts s) \<subseteq> set (parts s)"
  by (auto simp: failed_parts_def)

lemma progress_inv_after_round: "progress_inv pl s \<Longrightarrow> progress_inv pl (after_round b s)"
  using after_round_cases[of b s] progress_inv_finish[of pl s] failed_parts_subset[of s]
  by (auto simp: progress_inv_def)

lemma progress_inv_promise_all_check:
  "progress_inv pl s \<Longrightarrow> progress_inv pl (promise_all_check w s)"
  using promise_all_check_cases[of w s] progress_inv_after_round[of pl s] by auto

lemma progress_inv_spawn_workers:
  "progress_inv pl s \<Longrightarrow> progress_inv pl (spawn_workers k s)"
proof (induction k arbitrary: s)
  case 0
  then show ?case by simp
next
  case (Suc k)
  from Suc.prems have "progress_inv pl (s\<lparr>workers := workers s @ [(roundNo s, Returned)]\<rparr>)"
    by (simp add: progress_inv_def)
  from Suc.IH[OF progress_inv_worker_loop[OF this]] show ?case by simp
qed

lemma progress_inv_runUploadWorkers:
  assumes "progress_inv pl s"
  shows "progress_inv pl (runUploadWorkers s)"
proof -
  let ?u = "spawn_workers (worker_count (concurrency s) (length (queue s)))
              (s\<lparr>uploadError := None, roundNo := Suc (roundNo s)\<rparr>)"
  from assms have "progress_inv pl (s\<lparr>uploadError := None, roundNo := Suc (roundNo s)\<rparr>)"
    by (simp add: progress_inv_def)
  from progress_inv_spawn_workers[OF this] have u: "progress_inv pl ?u" .
  have r: "runUploadWorkers s = promise_all ?u" by (simp add: runUploadWorkers_def Let_def)
  from promise_all_cases[of ?u] show ?thesis
  proof
    assume "promise_all ?u = ?u\<lparr>coord := AwaitWorkers\<rparr>"
    with u r show ?thesis by (simp add: progress_inv_def)
  next
    assume "\<exists>b. promise_all ?u = after_round b ?u"
    with u r progress_inv_after_round[of pl ?u] show ?thesis by auto
  qed
qed

lemma reset_progress_inv:
  assumes "numbered pl"
  shows "counters_ok pl (partProgress s) \<Longrightarrow> set fp \<subseteq> set pl \<Longrightarrow>
         counters_ok pl (partProgress (reset_progress fp s))"
proof (induction fp arbitrary: s)
  case Nil
  then show ?case by simp
next
  case (Cons p fp)
  from Cons.prems have p: "p \<in> set pl" and fp: "set fp \<subseteq> set pl" by simp_all
  from counters_ok_set[OF assms Cons.prems(1) p, of 0] numbered_index(4)[OF assms p]
  have "counters_ok pl (partProgress (set_progress p 0 s))" by (simp add: set_progress_def)
  from Cons.IH[OF this fp] show ?case by simp
qed

lemma progress_inv_retry_failed:
  assumes "numbered pl" and "progress_inv pl s" and "coord s = AwaitAlert fp c t f"
  shows "progress_inv pl (retry_failed fp s)"
proof -
  from assms(2,3) have fp: "set fp \<subseteq> set pl" by (simp add: progress_inv_def)
  from assms(2) have "counters_ok pl (partProgress (s\<lparr>queue := fp\<rparr>))"
    by (simp add: progress_inv_def)
  from reset_progress_inv[OF assms(1) this fp]
  have "counters_ok pl (partProgress (reset_progress fp (s\<lparr>queue := fp\<rparr>)))" .
  with assms(2) fp
  have "progress_inv pl (updateTotalProgress (reset_progress fp (s\<lparr>queue := fp\<rparr>)))"
    by (simp add: progress_inv_def updateTotalProgress_def)
  from progress_inv_runUploadWorkers[OF this] show ?thesis by (simp add: retry_failed_def)
qed

lemma planned_parts_frame:
  "fileSize t = fileSize s \<Longrightarrow> partSize t = partSize s \<Longrightarrow> totalParts t = totalParts s \<Longrightarrow>
   planned_parts t = planned_parts s"
  by (simp add: planned_parts_def split: option.splits)

lemma coordinator_callback_frame:
  assumes "coordinator_callback e s = Some t"
  shows "fileSize t = fileSize s" "partSize t = partSize s" "totalParts t = totalParts s"
    "maxRetries t = maxRetries s" "concurrency t = concurrency s"
  using assms by (cases e; auto split: if_splits option.splits cstate.splits)+

lemma step_frame:
  assumes "step e s = Some s'"
  shows "fileSize s' = fileSize s" "partSize s' = partSize s" "totalParts s' = totalParts s"
    "maxRetries s' = maxRetries s" "concurrency s' = concurrency s"
  using assms
  by (cases rule: step_cases; simp add: worker_callback_frame coordinator_callback_frame)+

lemma planned_parts_step: "step e s = Some s' \<Longrightarrow> planned_parts s' = planned_parts s"
  by (rule planned_parts_frame) (simp_all add: step_frame)

lemma progress_inv_step:
  assumes "numbered (planned_parts s)" and "progress_inv (planned_parts s) s"
    and "step e s = Some s'"
  shows "progress_inv (planned_parts s) s'"
  using assms(3)
proof (cases rule: step_cases)
  case (worker w t)
  from progress_inv_worker_callback[OF assms(1,2) worker(2)] worker(3)
  show ?thesis by (simp add: progress_inv_promise_all_check)
next
  case coordinator
  show ?thesis
  proof (cases e)
    case (InitiateDone r)
    show ?thesis
    proof (cases r)
      case None
      with InitiateDone coordinator have s': "s' = start_workers s" by (auto split: if_splits)
      from assms(2) have "progress_inv (planned_parts s)
          (s\<lparr>parts := planned_parts s, queue := planned_parts s\<rparr>)"
        by (simp add: progress_inv_def)
      from progress_inv_runUploadWorkers[OF this] show ?thesis
        unfolding s' start_workers_def .
    next
      case (Some err)
      with InitiateDone coordinator assms(2) show ?thesis
        by (auto simp: progress_inv_def split: if_splits)
    qed
  next
    case (AlertAnswer b)
    show ?thesis
    proof (cases b)
      case True
      with AlertAnswer coordinator obtain fp c t f where c: "coord s = AwaitAlert fp c t f"
        and s': "s' = retry_failed fp s"
        by (auto split: cstate.splits)
      from progress_inv_retry_failed[OF assms(1,2) c] show ?thesis unfolding s' .
    next
      case False
      with AlertAnswer coordinator assms(2) show ?thesis
        by (auto simp: progress_inv_def split: cstate.splits)
    qed
  qed (use coordinator assms(2) in \<open>auto simp: progress_inv_def split: if_splits cstate.splits\<close>)
qed

lemma numbered_plan: "0 < psize \<Longrightarrow> numbered (plan fsize psize)"
  unfolding numbered_def
proof (intro allI impI conjI)
  fix i assume p: "0 < psize" and i: "i < length (plan fsize psize)"
  from i show "partNumber (plan fsize psize ! i) = int i + 1" by (simp add: nth_plan)
  from plan_nonempty_range[OF p i] show "0 \<le> part_len (plan fsize psize ! i)"
    by (simp add: part_len_def)
qed

lemma effective_partSize_pos: "effective_partSize p = Some a \<Longrightarrow> 5242880 \<le> a"
  by (auto simp: effective_partSize_def js_max_def)

lemma handleSubmit_fields:
  "fileSize (handleSubmit prefs fsize) = fsize"
  "partSize (handleSubmit prefs fsize) = effective_partSize (pref_partSize prefs)"
  "maxRetries (handleSubmit prefs fsize) = effective_maxRetries (pref_retryCount prefs)"
  "concurrency (handleSubmit prefs fsize) = effective_concurrency (pref_concurrency prefs)"
  by (simp_all add: handleSubmit_def Let_def split: option.splits)

lemma plan_loop_empty: "plan_loop 0 0 psize fsize = []"
  by (subst plan_loop.simps) simp

lemma planned_parts_init:
  "planned_parts (handleSubmit prefs fsize) =
     (case effective_partSize (pref_partSize prefs) of None \<Rightarrow> []
      | Some a \<Rightarrow> if fsize < a then [] else plan fsize a)"
  by (simp add: planned_parts_def handleSubmit_def Let_def js_lt_def plan_def plan_loop_empty
      split: option.splits)

lemma numbered_init: "numbered (planned_parts (handleSubmit prefs fsize))"
  using effective_partSize_pos[of "pref_partSize prefs"]
  by (auto simp: planned_parts_init numbered_def split: option.splits
      dest!: numbered_plan[unfolded numbered_def, rule_format, rotated])

lemma progress_inv_init:
  "progress_inv (planned_parts (handleSubmit prefs fsize)) (handleSubmit prefs fsize)"
proof (cases "effective_partSize (pref_partSize prefs)")
  case None
  then have pl: "planned_parts (handleSubmit prefs fsize) = []" by (simp add: planned_parts_init)
  from None show ?thesis unfolding pl
    by (simp add: progress_inv_def counters_ok_def handleSubmit_def Let_def js_lt_def)
next
  case (Some a)
  show ?thesis
  proof (cases "fsize < a")
    case True
    with Some have pl: "planned_parts (handleSubmit prefs fsize) = []"
      by (simp add: planned_parts_init)
    from Some True show ?thesis unfolding pl
      by (simp add: progress_inv_def counters_ok_def handleSubmit_def Let_def js_lt_def)
  next
    case False
    with Some have pl: "planned_parts (handleSubmit prefs fsize) = plan fsize a"
      by (simp add: planned_parts_init)
    from effective_partSize_pos[OF Some] have a: "0 < a" by simp
    from numbered_plan[OF a, of fsize]
    have "\<forall>i < length (plan fsize a). 0 \<le> part_len (plan fsize a ! i)"
      by (simp add: numbered_def)
    with Some False show ?thesis unfolding pl
      by (simp add: progress_inv_def counters_ok_def handleSubmit_def Let_def js_lt_def
          length_plan)
  qed
qed

lemma progress_invariant:
  assumes "run evs (handleSubmit prefs fsize) = Some s"
  shows "planned_parts s = planned_parts (handleSubmit prefs fsize)"
    and "progress_inv (planned_parts s) s"
    and "fileSize s = fsize"
proof -
  let ?P = "\<lambda>t. planned_parts t = planned_parts (handleSubmit prefs fsize) \<and>
                 progress_inv (planned_parts t) t \<and> fileSize t = fsize"
  have "?P s"
  proof (rule run_invariant[of evs "handleSubmit prefs fsize" s ?P, OF assms])
    show "?P (handleSubmit prefs fsize)" by (simp add: progress_inv_init handleSubmit_fields)
  next
    fix e t t' assume p: "?P t" and st: "step e t = Some t'"
    from p numbered_init[of prefs fsize] have n: "numbered (planned_parts t)" by simp
    from p have pi: "progress_inv (planned_parts t) t" by blast
    from progress_inv_step[OF n pi st] planned_parts_step[OF st]
    have "progress_inv (planned_parts t') t'" by simp
    with p planned_parts_step[OF st] step_frame(1)[OF st] show "?P t'" by simp
  qed
  then show "planned_parts s = planned_parts (handleSubmit prefs fsize)"
    and "progress_inv (planned_parts s) s" and "fileSize s = fsize"
    by blast+
qed

lemma sum_list_nth_le:
  "length xs = length ys \<Longrightarrow> (\<forall>i < length xs. (xs ! i :: int) \<le> ys ! i) \<Longrightarrow>
   sum_list xs \<le> sum_list ys"
proof (induction xs ys rule: list_induct2)
  case Nil
  then show ?case by simp
next
  case (Cons x xs y ys)
  from Cons.prems have "x \<le> y" by (auto dest: spec[of _ 0])
  moreover from Cons.prems have "\<forall>i < length xs. xs ! i \<le> ys ! i" by (auto dest: spec[of _ "Suc _"])
  ultimately show ?case using Cons.IH by simp
qed

lemma counters_sum:
  assumes "counters_ok pl pp"
  shows "0 \<le> sum_list pp" and "sum_list pp \<le> sum_list (map part_len pl)"
proof -
  from assms have "\<forall>x \<in> set pp. 0 \<le> x" by (auto simp: counters_ok_def in_set_conv_nth)
  then show "0 \<le> sum_list pp" by (auto intro: sum_list_nonneg)
  from assms show "sum_list pp \<le> sum_list (map part_len pl)"
    by (intro sum_list_nth_le) (simp_all add: counters_ok_def)
qed

lemma telescope:
  "ps \<noteq> [] \<Longrightarrow> (\<forall>k. Suc k < length ps \<longrightarrow> end_excl (ps ! k) = start (ps ! Suc k)) \<Longrightarrow>
   sum_list (map part_len ps) = end_excl (last ps) - start (hd ps)"
proof (induction ps)
  case Nil
  then show ?case by simp
next
  case (Cons p ps)
  show ?case
  proof (cases "ps = []")
    case True
    then show ?thesis by (simp add: part_len_def)
  next
    case False
    from Cons.prems(2) have "\<forall>k. Suc k < length ps \<longrightarrow> end_excl (ps ! k) = start (ps ! Suc k)"
      by (auto dest: spec[of _ "Suc _"])
    from Cons.IH[OF False this]
    have ih: "sum_list (map part_len ps) = end_excl (last ps) - start (hd ps)" .
    from Cons.prems(2) False have "end_excl p = start (hd ps)"
      by (auto dest!: spec[of _ 0] simp: hd_conv_nth)
    with ih False show ?thesis by (simp add: part_len_def[of p])
  qed
qed

lemma plan_total:
  assumes f: "0 < fsize" and p: "0 < psize"
  shows "sum_list (map part_len (plan fsize psize)) = fsize"
proof -
  let ?ps = "plan fsize psize"
  from totalParts_pos[OF f p] have l0: "0 < length ?ps" by (simp add: length_plan)
  then have ne: "?ps \<noteq> []" by auto
  have cons: "\<forall>k. Suc k < length ?ps \<longrightarrow> end_excl (?ps ! k) = start (?ps ! Suc k)"
    using plan_end_inner[OF p] by (simp add: nth_plan algebra_simps)
  from l0 have "Suc (length ?ps - 1) = length ?ps" by simp
  from plan_end_last[OF p this] ne have "end_excl (last ?ps) = fsize" by (simp add: last_conv_nth)
  moreover have "start (hd ?ps) = 0" using l0 ne by (simp add: hd_conv_nth nth_plan)
  ultimately show ?thesis using telescope[OF ne cons] by simp
qed

subsection \<open>The percentage in doubles\<close>

lemma bitlen_rat_bounds:
  assumes "0 < a"
  shows "(2::rat) powi (bitlen a - 1) \<le> of_int a" and "of_int a < (2::rat) powi bitlen a"
proof -
  from bitlen_bounds[OF assms] have l: "2 ^ nat (bitlen a - 1) \<le> a" and u: "a < 2 ^ nat (bitlen a)"
    by simp_all
  from u assms have p: "0 < bitlen a" by (cases "0 < bitlen a") simp_all
  from l have "rat_of_int (2 ^ nat (bitlen a - 1)) \<le> of_int a" by (simp only: of_int_le_iff)
  with p show "(2::rat) powi (bitlen a - 1) \<le> of_int a" by (simp add: power_int_def)
  from u have "rat_of_int a < of_int (2 ^ nat (bitlen a))" by (simp only: of_int_less_iff)
  with p show "of_int a < (2::rat) powi bitlen a" by (simp add: power_int_def)
qed

lemma binade_bounds:
  assumes "0 < x"
  shows "2 powi binade x \<le> x" and "x < 2 powi (binade x + 1)"
proof -
  obtain a b where q: "quotient_of x = (a, b)" by (cases "quotient_of x")
  from quotient_of_denom_pos[OF q] have b: "0 < b" .
  from quotient_of_div[OF q] have x: "x = of_int a / of_int b" .
  from assms x b have a: "0 < a" by (simp add: zero_less_divide_iff)
  let ?k = "bitlen a - bitlen b"
  note ba = bitlen_rat_bounds[OF a] and bb = bitlen_rat_bounds[OF b]
  have lo: "2 powi (?k - 1) \<le> x"
  proof -
    have "(2::rat) powi (?k - 1) = 2 powi (bitlen a - 1) / 2 powi bitlen b"
      by (simp add: power_int_diff)
    also have "\<dots> \<le> of_int a / 2 powi bitlen b"
      using ba(1) by (simp add: divide_right_mono)
    also have "\<dots> \<le> of_int a / of_int b"
      using bb(2) a b by (simp add: frac_le)
    finally show ?thesis using x by simp
  qed
  have hi: "x < 2 powi (?k + 1)"
  proof -
    have "x = of_int a / of_int b" by (rule x)
    also have "\<dots> < 2 powi bitlen a / of_int b"
      using ba(2) b by (simp add: divide_strict_right_mono)
    also have "\<dots> \<le> 2 powi bitlen a / 2 powi (bitlen b - 1)"
      using bb(1) by (simp add: frac_le)
    also have "\<dots> = (2::rat) powi (?k + 1)"
      by (simp add: power_int_diff power_int_add field_simps)
    finally show ?thesis .
  qed
  have bd: "binade x = (if x < 2 powi ?k then ?k - 1 else ?k)"
    by (simp add: binade_def q Let_def)
  from lo hi bd show "2 powi binade x \<le> x" by (auto split: if_splits)
  from lo hi bd show "x < 2 powi (binade x + 1)" by (auto split: if_splits)
qed

lemma round_even_error: "\<bar>of_int (round_even y) - y\<bar> \<le> 1 / 2"
proof -
  have "of_int \<lfloor>y\<rfloor> \<le> y" "y < of_int \<lfloor>y\<rfloor> + 1" by linarith+
  then show ?thesis unfolding round_even_def Let_def by (simp add: abs_if) linarith
qed

lemma fl64_error: "\<bar>fl64 x - x\<bar> \<le> \<bar>x\<bar> / 2 ^ 53"
proof (cases "x = 0")
  case True
  then show ?thesis by (simp add: fl64_def)
next
  case False
  then have ax: "0 < \<bar>x\<bar>" by simp
  define e where "e = binade \<bar>x\<bar> - 52"
  define p where "p = (2::rat) powi e"
  define y where "y = \<bar>x\<bar> / p"
  have p: "0 < p" by (simp add: p_def)
  have "(2::rat) powi binade \<bar>x\<bar> = 2 powi e * 2 ^ 52"
    by (simp add: e_def power_int_diff)
  with binade_bounds(1)[OF ax] have "p * 2 ^ 52 \<le> \<bar>x\<bar>" by (simp add: p_def)
  with p have y52: "2 ^ 52 \<le> y" by (simp add: y_def field_simps)
  have xy: "\<bar>x\<bar> = y * p" using p by (simp add: y_def)
  have fl: "fl64 x = sgn x * (of_int (round_even y) * p)"
    using False by (simp add: fl64_def Let_def e_def p_def y_def)
  have "x = sgn x * \<bar>x\<bar>" by (simp add: sgn_if)
  then have "fl64 x - x = sgn x * ((of_int (round_even y) - y) * p)"
    unfolding fl xy by (simp add: algebra_simps sgn_if)
  then have "\<bar>fl64 x - x\<bar> = \<bar>of_int (round_even y) - y\<bar> * p"
    using False p by (simp add: abs_mult sgn_if)
  also have "\<dots> \<le> 1 / 2 * p"
    using round_even_error[of y] p by (simp add: mult_right_mono)
  also have "\<dots> \<le> y / 2 ^ 53 * p"
    using y52 p by (simp add: mult_right_mono)
  also have "\<dots> = \<bar>x\<bar> / 2 ^ 53" unfolding xy by simp
  finally show ?thesis .
qed

lemma rounding_ok_fl64: "rounding_ok fl64"
  unfolding rounding_ok_def using fl64_error by blast

lemma percentage_error:
  assumes ok: "rounding_ok fl" and t: "0 \<le> t" "t \<le> f" and f: "0 < f"
  shows "\<bar>fl (fl (rat_of_int t / rat_of_int f) * 100) - 100 * rat_of_int t / rat_of_int f\<bar>
           \<le> 201 / 2 ^ 53"
    and "0 \<le> fl (fl (rat_of_int t / rat_of_int f) * 100)"
proof -
  define q where "q = rat_of_int t / rat_of_int f"
  define a where "a = fl q"
  define y where "y = fl (a * 100)"
  from t f have q0: "0 \<le> q" by (simp add: q_def)
  from t f have "rat_of_int t \<le> rat_of_int f" "0 < rat_of_int f" by simp_all
  then have q1: "q \<le> 1" by (simp add: q_def field_simps)
  from ok have ea: "\<bar>a - q\<bar> \<le> \<bar>q\<bar> / 2 ^ 53" unfolding a_def rounding_ok_def by blast
  from ok have ey: "\<bar>y - a * 100\<bar> \<le> \<bar>a * 100\<bar> / 2 ^ 53"
    unfolding y_def rounding_ok_def by blast
  from ea q0 q1 have a0: "0 \<le> a" and a1: "a \<le> 1 + 1 / 2 ^ 53" and aq: "\<bar>a - q\<bar> \<le> 1 / 2 ^ 53"
    by (simp_all add: abs_if field_simps split: if_splits)
  from ey a0 a1 have y0: "0 \<le> y" and ya: "\<bar>y - a * 100\<bar> \<le> 100 * (1 + 1 / 2 ^ 53) / 2 ^ 53"
    by (simp_all add: abs_if field_simps split: if_splits)
  have "\<bar>y - 100 * q\<bar> \<le> \<bar>y - a * 100\<bar> + 100 * \<bar>a - q\<bar>" by (simp add: abs_if)
  also have "\<dots> \<le> 100 * (1 + 1 / 2 ^ 53) / 2 ^ 53 + 100 * (1 / 2 ^ 53)"
    using add_mono[OF ya mult_left_mono[OF aq, of 100]] by simp
  also have "\<dots> \<le> 201 / 2 ^ 53" by simp
  finally show "\<bar>fl (fl (rat_of_int t / rat_of_int f) * 100) - 100 * rat_of_int t / rat_of_int f\<bar>
           \<le> 201 / 2 ^ 53"
    by (simp add: y_def a_def q_def)
  from y0 show "0 \<le> fl (fl (rat_of_int t / rat_of_int f) * 100)" by (simp add: y_def a_def q_def)
qed

lemma percentage_bounds:
  assumes "rounding_ok fl" and "0 \<le> t" and "t \<le> f" and "0 < f"
  shows "0 \<le> percentage_of fl t f" and "percentage_of fl t f \<le> 100"
proof -
  let ?y = "fl (fl (rat_of_int t / rat_of_int f) * 100)"
  note e = percentage_error[OF assms]
  from e(2) have "0 \<le> ?y + 1 / 2" by simp
  then show "0 \<le> percentage_of fl t f" by (simp add: percentage_of_def js_round_def)
  from assms(3,4) have "rat_of_int t \<le> rat_of_int f" "0 < rat_of_int f" by simp_all
  then have "100 * rat_of_int t / rat_of_int f \<le> 100" by (simp add: field_simps)
  with e(1) have "?y \<le> 100 + 201 / 2 ^ 53" by (simp add: abs_if split: if_splits)
  then have "?y + 1 / 2 < rat_of_int 101" by simp
  then have "\<lfloor>?y + 1 / 2\<rfloor> < 101" by (simp only: floor_less_iff)
  then show "percentage_of fl t f \<le> 100" by (simp add: percentage_of_def js_round_def)
qed

lemma spec_percentage_div:
  assumes "0 \<le> t" and "t \<le> f" and "0 < f"
  shows "spec_percentage t f = (200 * t + f) div (2 * f)"
proof -
  let ?z = "100 * rat_of_int t / rat_of_int f"
  from assms(3) have "?z + 1 / 2 = rat_of_int (200 * t + f) / rat_of_int (2 * f)"
    by (simp add: field_simps)
  then have r: "js_round ?z = (200 * t + f) div (2 * f)"
    unfolding js_round_def by (simp only: floor_divide_of_int_eq)
  from assms have tf: "0 \<le> rat_of_int t" "rat_of_int t \<le> rat_of_int f" "0 < rat_of_int f"
    by simp_all
  then have z: "0 \<le> ?z" "?z \<le> 100" by (simp_all add: field_simps)
  then have "rat_of_int 0 \<le> ?z + 1 / 2" "?z + 1 / 2 < rat_of_int 101" by simp_all
  then have "0 \<le> \<lfloor>?z + 1 / 2\<rfloor>" "\<lfloor>?z + 1 / 2\<rfloor> < 101"
    by (simp_all only: le_floor_iff floor_less_iff)
  then have "0 \<le> js_round ?z" "js_round ?z \<le> 100" by (simp_all add: js_round_def)
  with r show ?thesis by (simp add: spec_percentage_def)
qed

lemma percentage_near_exact:
  assumes ok: "rounding_ok fl" and t: "0 \<le> t" "t \<le> f" and f: "0 < f" "f \<le> 2 ^ 44"
  shows "\<not> halfway t f \<Longrightarrow> percentage_of fl t f = spec_percentage t f"
    and "halfway t f \<Longrightarrow>
           percentage_of fl t f = spec_percentage t f \<or> percentage_of fl t f = spec_percentage t f - 1"
proof -
  define N where "N = 200 * t + f"
  define D where "D = 2 * f"
  define R where "R = N div D"
  define m where "m = N mod D"
  define y where "y = fl (fl (rat_of_int t / rat_of_int f) * 100)"
  define z where "z = 100 * rat_of_int t / rat_of_int f"
  from f have D: "0 < D" "D \<le> 2 ^ 45" by (simp_all add: D_def)
  have R: "spec_percentage t f = R"
    using spec_percentage_div[OF t f(1)] by (simp add: R_def N_def D_def)
  have pc: "percentage_of fl t f = \<lfloor>y + 1 / 2\<rfloor>"
    by (simp add: percentage_of_def js_round_def y_def)
  from percentage_error(1)[OF ok t f(1)] have e: "\<bar>y - z\<bar> \<le> 201 / 2 ^ 53"
    by (simp add: y_def z_def)
  have "N = D * R + m" by (simp add: R_def m_def)
  then have "rat_of_int N = rat_of_int D * rat_of_int R + rat_of_int m" by (simp only: of_int_add of_int_mult)
  moreover from f(1) have "z + 1 / 2 = rat_of_int N / rat_of_int D"
    by (simp add: z_def N_def D_def field_simps)
  ultimately have zR: "z + 1 / 2 = rat_of_int R + rat_of_int m / rat_of_int D"
    using D(1) by (simp add: field_simps)
  from D(1) have m: "0 \<le> m" "m < D" by (simp_all add: m_def)
  from D have "rat_of_int D \<le> 2 ^ 45" by (metis of_int_le_iff of_int_numeral of_int_power)
  with D(1) have invD: "1 / 2 ^ 45 \<le> 1 / rat_of_int D" by (simp add: frac_le)
  have small: "(201::rat) / 2 ^ 53 < 1 / 2 ^ 45" by simp
  have tie: "halfway t f \<longleftrightarrow> m = 0" by (simp add: halfway_def m_def N_def D_def)
  show "percentage_of fl t f = spec_percentage t f" if "\<not> halfway t f"
  proof -
    from that tie m have m1: "1 \<le> m" "m \<le> D - 1" by simp_all
    then have "rat_of_int 1 \<le> rat_of_int m" "rat_of_int m \<le> rat_of_int (D - 1)"
      by (simp_all only: of_int_le_iff)
    then have "1 / rat_of_int D \<le> rat_of_int m / rat_of_int D"
      and "rat_of_int m / rat_of_int D \<le> 1 - 1 / rat_of_int D"
      using D(1) by (simp_all add: field_simps)
    with zR invD small e have "rat_of_int R \<le> y + 1 / 2" "y + 1 / 2 < rat_of_int R + 1"
      by (simp_all add: abs_if split: if_splits)
    then have "\<lfloor>y + 1 / 2\<rfloor> = R" by (simp add: floor_unique)
    with pc R show ?thesis by simp
  qed
  show "percentage_of fl t f = spec_percentage t f \<or> percentage_of fl t f = spec_percentage t f - 1"
    if "halfway t f"
  proof -
    from that tie have "m = 0" by simp
    with zR have "z + 1 / 2 = rat_of_int R" by simp
    with e have "rat_of_int (R - 1) \<le> y + 1 / 2" "y + 1 / 2 < rat_of_int (R + 1)"
      by (simp_all add: abs_if split: if_splits)
    then have "R - 1 \<le> \<lfloor>y + 1 / 2\<rfloor>" "\<lfloor>y + 1 / 2\<rfloor> < R + 1"
      by (simp_all only: le_floor_iff floor_less_iff)
    with pc R show ?thesis by auto
  qed
qed

text \<open>
  Claim C10. In every state of a multipart upload (the effective part size \<open>a\<close> is at
  most the file size): there is one counter per planned part, each between 0 and the byte
  length of its part; the transferred bytes, their sum, lie between 0 and \<open>fileSize\<close>; the
  last message was written from that sum, and the percentage it shows is
  \<^verbatim>\<open>Math.round((totalUploaded / fileSize) * 100)\<close> as the doubles give it. It lies in
  \<open>[0, 100]\<close> with no clamp. For a file of at most \<open>2 ^ 44\<close> bytes it is
  \<open>round(100 \<times> transferred / total)\<close>, a half rounded up, whenever
  \<open>100 \<times> transferred / total\<close> is not halfway between two integers; at a halfway value
  it is that integer or the one below. On the other paths there is no counter and
  nothing is reported.
\<close>

theorem progress_percentage_in_range:
  assumes "run evs (handleSubmit prefs fsize) = Some s" and "rounding_ok fl"
  shows "(\<forall>a. effective_partSize (pref_partSize prefs) = Some a \<and> a \<le> fsize \<longrightarrow>
            length (partProgress s) = length (plan fsize a) \<and>
            (\<forall>i < length (plan fsize a).
               0 \<le> partProgress s ! i \<and> partProgress s ! i \<le> part_len (plan fsize a ! i)) \<and>
            0 \<le> sum_list (partProgress s) \<and> sum_list (partProgress s) \<le> fsize \<and>
            (\<forall>pc. toast_percentage fl s = Some pc \<longrightarrow>
               pc = percentage_of fl (sum_list (partProgress s)) fsize \<and> 0 \<le> pc \<and> pc \<le> 100 \<and>
               (fsize \<le> 2 ^ 44 \<and> \<not> halfway (sum_list (partProgress s)) fsize \<longrightarrow>
                  pc = spec_percentage (sum_list (partProgress s)) fsize) \<and>
               (fsize \<le> 2 ^ 44 \<and> halfway (sum_list (partProgress s)) fsize \<longrightarrow>
                  pc = spec_percentage (sum_list (partProgress s)) fsize \<or>
                  pc = spec_percentage (sum_list (partProgress s)) fsize - 1)))
       \<and> (\<not> (\<exists>a. effective_partSize (pref_partSize prefs) = Some a \<and> a \<le> fsize) \<longrightarrow>
            partProgress s = [] \<and> toast_percentage fl s = None)"
proof -
  have multipart:
    "length (partProgress s) = length (plan fsize a) \<and>
     (\<forall>i < length (plan fsize a).
        0 \<le> partProgress s ! i \<and> partProgress s ! i \<le> part_len (plan fsize a ! i)) \<and>
     0 \<le> sum_list (partProgress s) \<and> sum_list (partProgress s) \<le> fsize \<and>
     (\<forall>pc. toast_percentage fl s = Some pc \<longrightarrow>
        pc = percentage_of fl (sum_list (partProgress s)) fsize \<and> 0 \<le> pc \<and> pc \<le> 100 \<and>
        (fsize \<le> 2 ^ 44 \<and> \<not> halfway (sum_list (partProgress s)) fsize \<longrightarrow>
           pc = spec_percentage (sum_list (partProgress s)) fsize) \<and>
        (fsize \<le> 2 ^ 44 \<and> halfway (sum_list (partProgress s)) fsize \<longrightarrow>
           pc = spec_percentage (sum_list (partProgress s)) fsize \<or>
           pc = spec_percentage (sum_list (partProgress s)) fsize - 1))"
    if h: "effective_partSize (pref_partSize prefs) = Some a \<and> a \<le> fsize" for a
  proof -
    from h have eps: "effective_partSize (pref_partSize prefs) = Some a" and le: "a \<le> fsize"
      by simp_all
    from effective_partSize_pos[OF eps] have a: "0 < a" by simp
    with le have f: "0 < fsize" by simp
    note pi = progress_invariant[OF assms(1)]
    from pi(1) eps le have pl: "planned_parts s = plan fsize a" by (simp add: planned_parts_init)
    from pi(2) pl have co: "counters_ok (plan fsize a) (partProgress s)"
      and toast: "\<forall>t. toast_totalUploaded s = Some t \<longrightarrow> t = sum_list (partProgress s)"
      by (simp_all add: progress_inv_def)
    from co have c1: "length (partProgress s) = length (plan fsize a)"
      and c2: "\<forall>i < length (plan fsize a).
               0 \<le> partProgress s ! i \<and> partProgress s ! i \<le> part_len (plan fsize a ! i)"
      by (simp_all add: counters_ok_def)
    from counters_sum[OF co] plan_total[OF f a]
    have s0: "0 \<le> sum_list (partProgress s)" and s1: "sum_list (partProgress s) \<le> fsize"
      by simp_all
    let ?T = "sum_list (partProgress s)"
    have c3: "\<forall>pc. toast_percentage fl s = Some pc \<longrightarrow>
        pc = percentage_of fl ?T fsize \<and> 0 \<le> pc \<and> pc \<le> 100 \<and>
        (fsize \<le> 2 ^ 44 \<and> \<not> halfway ?T fsize \<longrightarrow> pc = spec_percentage ?T fsize) \<and>
        (fsize \<le> 2 ^ 44 \<and> halfway ?T fsize \<longrightarrow>
           pc = spec_percentage ?T fsize \<or> pc = spec_percentage ?T fsize - 1)"
    proof (intro allI impI)
      fix pc assume "toast_percentage fl s = Some pc"
      with toast pi(3) have pc: "pc = percentage_of fl ?T fsize"
        by (auto simp: toast_percentage_def)
      note b = percentage_bounds[OF assms(2) s0 s1 f]
      have e1: "pc = spec_percentage ?T fsize" if "fsize \<le> 2 ^ 44 \<and> \<not> halfway ?T fsize"
        using percentage_near_exact(1)[OF assms(2) s0 s1 f] that pc by simp
      have e2: "pc = spec_percentage ?T fsize \<or> pc = spec_percentage ?T fsize - 1"
        if "fsize \<le> 2 ^ 44 \<and> halfway ?T fsize"
        using percentage_near_exact(2)[OF assms(2) s0 s1 f] that pc by simp
      from pc b e1 e2 show "pc = percentage_of fl ?T fsize \<and> 0 \<le> pc \<and> pc \<le> 100 \<and>
        (fsize \<le> 2 ^ 44 \<and> \<not> halfway ?T fsize \<longrightarrow> pc = spec_percentage ?T fsize) \<and>
        (fsize \<le> 2 ^ 44 \<and> halfway ?T fsize \<longrightarrow>
           pc = spec_percentage ?T fsize \<or> pc = spec_percentage ?T fsize - 1)"
        by blast
    qed
    from c1 c2 s0 s1 c3 show ?thesis by blast
  qed
  have other: "partProgress s = [] \<and> toast_percentage fl s = None"
    if n: "\<not> (\<exists>a. effective_partSize (pref_partSize prefs) = Some a \<and> a \<le> fsize)"
  proof (cases "effective_partSize (pref_partSize prefs)")
    case None
    from run_invariant[of evs _ s rejected, OF assms(1) handleSubmit_NaN[OF None] rejected_step]
    show ?thesis by (simp add: rejected_def toast_percentage_def)
  next
    case (Some a)
    with n have small: "js_lt fsize (effective_partSize (pref_partSize prefs))"
      by (auto simp: js_lt_def)
    from run_invariant[of evs _ s single_shot, OF assms(1) handleSubmit_small[OF small] single_shot_step]
    show ?thesis by (simp add: single_shot_def toast_percentage_def)
  qed
  from multipart other show ?thesis by blast
qed

theorem progress_percentage_in_range_witness:
  "rounding_ok fl64
   \<and> effective_partSize (pref_partSize
      \<lparr>pref_partSize = Some 5, pref_concurrency = Some 2, pref_retryCount = Some 3\<rparr>) = Some 5242880
   \<and> (5242880::int) \<le> 12582912 \<and> (12582912::int) \<le> 2 ^ 44
   \<and> map_option partProgress
       (run [InitiateDone None, Presigned 0 39]
          (handleSubmit \<lparr>pref_partSize = Some 5, pref_concurrency = Some 2, pref_retryCount = Some 3\<rparr>
             12582912)) = Some [2621440, 0, 0]
   \<and> map_option (toast_percentage fl64)
       (run [InitiateDone None, Presigned 0 39]
          (handleSubmit \<lparr>pref_partSize = Some 5, pref_concurrency = Some 2, pref_retryCount = Some 3\<rparr>
             12582912)) = Some (Some 21)
   \<and> \<not> halfway 2621440 12582912
   \<and> (21::int) = spec_percentage 2621440 12582912
   \<and> map_option partProgress
       (run [InitiateDone None, Presigned 0 39, Presigned 1 79]
          (handleSubmit \<lparr>pref_partSize = Some 5, pref_concurrency = Some 2, pref_retryCount = Some 3\<rparr>
             12582912)) = Some [2621440, 5242880, 0]
   \<and> map_option (toast_percentage fl64)
       (run [InitiateDone None, Presigned 0 39, Presigned 1 79]
          (handleSubmit \<lparr>pref_partSize = Some 5, pref_concurrency = Some 2, pref_retryCount = Some 3\<rparr>
             12582912)) = Some (Some 63)
   \<and> halfway 7864320 12582912
   \<and> ((63::int) = spec_percentage 7864320 12582912 \<or> (63::int) = spec_percentage 7864320 12582912 - 1)"
proof -
  let ?P = "\<lparr>pref_partSize = Some 5, pref_concurrency = Some 2, pref_retryCount = Some 3\<rparr>"
  let ?r1 = "run [InitiateDone None, Presigned 0 39] (handleSubmit ?P 12582912)"
  let ?r2 = "run [InitiateDone None, Presigned 0 39, Presigned 1 79] (handleSubmit ?P 12582912)"
  have eps: "effective_partSize (pref_partSize ?P) = Some 5242880" by code_simp
  have pp1: "map_option partProgress ?r1 = Some [2621440, 0, 0]" by code_simp
  have tp1: "map_option (toast_percentage fl64) ?r1 = Some (Some 21)" by code_simp
  have pp2: "map_option partProgress ?r2 = Some [2621440, 5242880, 0]" by code_simp
  have tp2: "map_option (toast_percentage fl64) ?r2 = Some (Some 63)" by code_simp
  have nh: "\<not> halfway 2621440 12582912" by (simp add: halfway_def)
  have hw: "halfway 7864320 12582912" by (simp add: halfway_def)
  have sz: "(12582912::int) \<le> 2 ^ 44" by simp
  from pp1 tp1 obtain s1 where s1: "?r1 = Some s1" and pps1: "partProgress s1 = [2621440, 0, 0]"
    and tps1: "toast_percentage fl64 s1 = Some 21"
    by (cases ?r1) simp_all
  from pp2 tp2 obtain s2 where s2: "?r2 = Some s2" and pps2: "partProgress s2 = [2621440, 5242880, 0]"
    and tps2: "toast_percentage fl64 s2 = Some 63"
    by (cases ?r2) simp_all
  have h: "effective_partSize (pref_partSize ?P) = Some 5242880 \<and> (5242880::int) \<le> 12582912"
    using eps by simp
  have sum1: "sum_list (partProgress s1) = 2621440" using pps1 by simp
  have sum2: "sum_list (partProgress s2) = 7864320" using pps2 by simp
  note i1 = progress_percentage_in_range[OF s1 rounding_ok_fl64, THEN conjunct1, THEN spec,
      THEN mp, OF h, THEN conjunct2, THEN conjunct2, THEN conjunct2, THEN conjunct2, THEN spec,
      THEN mp, OF tps1, THEN conjunct2, THEN conjunct2, THEN conjunct2, THEN conjunct1]
  have x1: "12582912 \<le> (2::int) ^ 44 \<and> \<not> halfway (sum_list (partProgress s1)) 12582912"
    unfolding sum1 using sz nh by (rule conjI)
  from i1 x1 have "21 = spec_percentage (sum_list (partProgress s1)) 12582912" by (rule mp)
  then have r1: "(21::int) = spec_percentage 2621440 12582912" unfolding sum1 .
  note i2 = progress_percentage_in_range[OF s2 rounding_ok_fl64, THEN conjunct1, THEN spec,
      THEN mp, OF h, THEN conjunct2, THEN conjunct2, THEN conjunct2, THEN conjunct2, THEN spec,
      THEN mp, OF tps2, THEN conjunct2, THEN conjunct2, THEN conjunct2, THEN conjunct2]
  have x2: "12582912 \<le> (2::int) ^ 44 \<and> halfway (sum_list (partProgress s2)) 12582912"
    unfolding sum2 using sz hw by (rule conjI)
  from i2 x2 have "63 = spec_percentage (sum_list (partProgress s2)) 12582912 \<or>
      63 = spec_percentage (sum_list (partProgress s2)) 12582912 - 1" by (rule mp)
  then have r2: "(63::int) = spec_percentage 7864320 12582912 \<or>
      (63::int) = spec_percentage 7864320 12582912 - 1" unfolding sum2 .
  have le: "(5242880::int) \<le> 12582912" by simp
  show ?thesis
    by (intro conjI) (fact rounding_ok_fl64 eps le sz pp1 tp1 nh r1 pp2 tp2 hw r2)+
qed

text \<open>
  The percentage of the specification is not the percentage of the toast. A file of
  exactly 5 MiB with the default preferences is one part; when 46 of its 80 chunks are
  written, \<open>100 \<times> transferred / total\<close> is 57.5 and rounds to 58, by any rule for a
  half that rounds to the nearest integer except the one that goes down. The double
  nearest to \<open>46 / 80\<close> is below it, its product with 100 rounds to the double just
  below 57.5, and the toast says 57.
\<close>

theorem percentage_tie_counterexample:
  "map_option partProgress
     (run [InitiateDone None, Presigned 0 45]
        (handleSubmit \<lparr>pref_partSize = Some 5, pref_concurrency = Some 4, pref_retryCount = Some 3\<rparr>
           5242880)) = Some [3014656]
   \<and> map_option (toast_percentage fl64)
     (run [InitiateDone None, Presigned 0 45]
        (handleSubmit \<lparr>pref_partSize = Some 5, pref_concurrency = Some 4, pref_retryCount = Some 3\<rparr>
           5242880)) = Some (Some 57)
   \<and> fl64 (3014656 / 5242880) = 2589569785738035 / 4503599627370496
   \<and> fl64 (2589569785738035 / 4503599627370496 * 100) = 8092405580431359 / 140737488355328
   \<and> js_round (8092405580431359 / 140737488355328) = 57
   \<and> 100 * rat_of_int 3014656 / rat_of_int 5242880 = 115 / 2
   \<and> spec_percentage 3014656 5242880 = 58"
  by code_simp

section \<open>Counters across a retry\<close>

lemma js_array_set_nth_same: "0 \<le> i \<Longrightarrow> js_array_set xs i v ! nat i = v"
  by (simp add: js_array_set_def nth_append)

lemma js_array_set_length: "0 \<le> i \<Longrightarrow> nat i < length (js_array_set xs i v)"
  by (simp add: js_array_set_def)

lemma js_array_set_zero_stays:
  "j < length xs \<Longrightarrow> xs ! j = 0 \<Longrightarrow>
   j < length (js_array_set xs i 0) \<and> js_array_set xs i 0 ! j = 0"
  by (auto simp: js_array_set_def nth_append nth_list_update)

lemma reset_progress_zero_stays:
  "j < length (partProgress s) \<Longrightarrow> partProgress s ! j = 0 \<Longrightarrow>
   j < length (partProgress (reset_progress fp s)) \<and> partProgress (reset_progress fp s) ! j = 0"
proof (induction fp arbitrary: s)
  case Nil
  then show ?case by simp
next
  case (Cons p fp)
  from js_array_set_zero_stays[OF Cons.prems, of "partNumber p - 1"]
  have "j < length (partProgress (set_progress p 0 s)) \<and> partProgress (set_progress p 0 s) ! j = 0"
    by (simp add: set_progress_def)
  with Cons.IH[of "set_progress p 0 s"] show ?case by simp
qed

lemma reset_progress_zero:
  "q \<in> set fp \<Longrightarrow> 1 \<le> partNumber q \<Longrightarrow>
   partProgress (reset_progress fp s) ! nat (partNumber q - 1) = 0"
proof (induction fp arbitrary: s)
  case Nil
  then show ?case by simp
next
  case (Cons p fp)
  show ?case
  proof (cases "q = p")
    case True
    from Cons.prems(2) have i: "0 \<le> partNumber q - 1" by simp
    from js_array_set_nth_same[OF i] js_array_set_length[OF i] True
    have "nat (partNumber q - 1) < length (partProgress (set_progress p 0 s))"
      "partProgress (set_progress p 0 s) ! nat (partNumber q - 1) = 0"
      by (simp_all add: set_progress_def)
    from reset_progress_zero_stays[OF this] show ?thesis by simp
  next
    case False
    with Cons.prems have "q \<in> set fp" by simp
    from Cons.IH[OF this Cons.prems(2)] show ?thesis by simp
  qed
qed

lemma runUploadWorkers_partProgress [simp]:
  "partProgress (runUploadWorkers s) = partProgress s"
  by (simp add: runUploadWorkers_def Let_def)

lemma attempt_failed_backoff:
  assumes "w < length (workers s)"
    and "worker_at (attempt_failed w p r err s) w = Some (Backoff p' r' d')"
  shows "p' = p"
    and "partProgress (attempt_failed w p r err s) = js_array_set (partProgress s) (partNumber p - 1) 0"
    and "toast_totalUploaded (attempt_failed w p r err s) =
           Some (sum_list (partProgress (attempt_failed w p r err s)))"
  using assms
  by (auto simp: attempt_failed_def worker_at_def worker_catch_def set_worker_def
        updateTotalProgress_def set_progress_def split: decision.splits if_splits)

lemma no_backoff_elsewhere:
  "w < length (workers s) \<Longrightarrow> worker_at (writeChunk w p r u n s) w \<noteq> Some (Backoff p' r' d')"
  "w < length (workers s) \<Longrightarrow> worker_at (begin_attempt w p r s) w \<noteq> Some (Backoff p' r' d')"
  "w < length (workers s) \<Longrightarrow> worker_at (worker_loop w s) w \<noteq> Some (Backoff p' r' d')"
  by (simp_all add: worker_at_def worker_level_workers)

lemma backoff_entry_resets:
  assumes cb: "worker_callback e s = Some t" and w: "worker_of e = Some w"
    and b: "worker_at t w = Some (Backoff p r d)" and n: "1 \<le> partNumber p"
  shows "partProgress t ! nat (partNumber p - 1) = 0"
    and "toast_totalUploaded t = Some (sum_list (partProgress t))"
proof -
  from worker_callback_workers[OF cb w] have wl: "w < length (workers s)" by simp
  from n have i: "0 \<le> partNumber p - 1" by simp
  have "\<exists>s0 p0 r0 err. t = attempt_failed w p0 r0 err s0 \<and> w < length (workers s0) \<and>
          partProgress s0 = partProgress s \<and> fileSize s0 = fileSize s"
  proof (cases e)
    case (Presigned w' k)
    with cb w wl b no_backoff_elsewhere(1) show ?thesis
      by (auto split: option.splits wstate.splits if_splits)
  next
    case (PresignFailed w' err)
    with cb w wl b show ?thesis by (auto split: option.splits wstate.splits if_splits)
  next
    case (Drain w' k)
    with cb w wl b no_backoff_elsewhere(1) show ?thesis
      by (auto split: option.splits wstate.splits if_splits)
  next
    case (Response w' st etag)
    with cb w wl b no_backoff_elsewhere(3)[of w
        "s\<lparr>activeRequests := removeAll w (activeRequests s),
           uploadedParts := uploadedParts s @ [(partNumber _, etag)]\<rparr>"]
    show ?thesis
      by (auto split: option.splits wstate.splits if_splits
          intro!: exI[of _ "s\<lparr>activeRequests := removeAll w (activeRequests s)\<rparr>"])
  next
    case (ReqError w' err)
    with cb w wl b show ?thesis
      by (auto split: option.splits wstate.splits if_splits
          intro!: exI[of _ "s\<lparr>activeRequests := removeAll w (activeRequests s)\<rparr>"])
  next
    case (Timer w')
    with cb w wl b no_backoff_elsewhere(2) show ?thesis
      by (auto split: option.splits wstate.splits if_splits)
  qed (use cb in simp_all)
  then obtain s0 p0 r0 err where t: "t = attempt_failed w p0 r0 err s0"
    and wl0: "w < length (workers s0)" and pp: "partProgress s0 = partProgress s"
    and fs: "fileSize s0 = fileSize s"
    by blast
  from b have b0: "worker_at (attempt_failed w p0 r0 err s0) w = Some (Backoff p r d)"
    unfolding t .
  note af = attempt_failed_backoff[OF wl0 b0]
  from af(1,2) js_array_set_nth_same[OF i] show "partProgress t ! nat (partNumber p - 1) = 0"
    unfolding t by simp
  from af(3) show "toast_totalUploaded t = Some (sum_list (partProgress t))"
    unfolding t by simp
qed

lemma retry_round_resets:
  assumes "coord s = AwaitAlert fp c t f" and "step (AlertAnswer True) s = Some s'"
    and "q \<in> set fp" and "1 \<le> partNumber q"
  shows "partProgress s' ! nat (partNumber q - 1) = 0"
proof -
  from assms(1,2) have "s' = retry_failed fp s" by simp
  then have "partProgress s' = partProgress (reset_progress fp (s\<lparr>queue := fp\<rparr>))"
    by (simp add: retry_failed_def)
  with reset_progress_zero[OF assms(3,4)] show ?thesis by simp
qed

lemma timer_starts_retry:
  assumes "step (Timer w) s = Some s'"
  shows "\<exists>p r d. worker_at s w = Some (Backoff p r d) \<and>
           (uploadCancelled s \<or> worker_at s' w = Some (Presigning p (js_pred r)))"
  using assms
  by (auto simp: worker_at_def worker_level_workers split: option.splits wstate.splits if_splits)

lemma transferred_bounded:
  assumes "run evs (handleSubmit prefs fsize) = Some s"
  shows "0 \<le> sum_list (partProgress s)" and "sum_list (partProgress s) \<le> max 0 fsize"
proof -
  note pi = progress_invariant[OF assms]
  from pi(2) have co: "counters_ok (planned_parts s) (partProgress s)"
    by (simp add: progress_inv_def)
  from counters_sum(1)[OF co] show "0 \<le> sum_list (partProgress s)" .
  have "sum_list (map part_len (planned_parts s)) \<le> max 0 fsize"
  proof (cases "effective_partSize (pref_partSize prefs)")
    case None
    with pi(1) show ?thesis by (simp add: planned_parts_init)
  next
    case (Some a)
    show ?thesis
    proof (cases "fsize < a")
      case True
      with Some pi(1) show ?thesis by (simp add: planned_parts_init)
    next
      case False
      from effective_partSize_pos[OF Some] have a: "0 < a" by simp
      with False have f: "0 < fsize" by simp
      from Some False pi(1) have "planned_parts s = plan fsize a" by (simp add: planned_parts_init)
      with plan_total[OF f a] show ?thesis by simp
    qed
  qed
  with counters_sum(2)[OF co] show "sum_list (partProgress s) \<le> max 0 fsize" by simp
qed

lemma alert_retry_enabled:
  assumes "coord s = AwaitAlert fp c t f"
  shows "step (AlertAnswer True) s = Some (retry_failed fp s)"
  using assms by simp

text \<open>
  So the resets are made: the callback that leaves a worker waiting for an automatic retry
  has set the counter of its part to 0 (\<open>backoff_entry_resets\<close>), the user's choice to
  retry sets the counter of every failed part to 0 before the workers are started again
  (\<open>retry_round_resets\<close>), and the total of the counters never leaves \<open>[0, fileSize]\<close>
  (\<open>transferred_bounded\<close>). But a counter that was reset need not be 0 any more when the
  retry begins.
\<close>


end
